theory Spec2Isabelle
  imports Complex_Main "HOL-Library.Multiset"
begin

section \<open>The random source (util.hpp)\<close>

text \<open>
  \<^verbatim>\<open>struct RNG\<close> wraps a \<^verbatim>\<open>std::mt19937\<close>. The generator and the two standard
  distributions belong to the C++ library, not to the repository, so the generator is
  taken as a parameter: an arbitrary infinite sequence \<open>gen\<close> of raw outputs, of which
  \<open>used\<close> have been consumed. A distribution consumes one raw output and maps it into
  its range, \<open>[a, b)\<close> for the real one and \<open>[a, b]\<close> for the integer one, as the
  standard prescribes. Doubles are modelled as reals.
\<close>

record RNG =
  gen :: "nat \<Rightarrow> nat"
  used :: nat

definition next_raw :: "RNG \<Rightarrow> nat \<times> RNG" where
  "next_raw rng = (gen rng (used rng), rng\<lparr>used := Suc (used rng)\<rparr>)"

definition canonical :: "nat \<Rightarrow> real" where
  "canonical w = real (w mod 2 ^ 53) / 2 ^ 53"

definition uniform_double :: "real \<Rightarrow> real \<Rightarrow> RNG \<Rightarrow> real \<times> RNG" where
  "uniform_double a b rng =
     (case next_raw rng of (w, rng') \<Rightarrow> (a + (b - a) * canonical w, rng'))"

definition uniform_int :: "int \<Rightarrow> int \<Rightarrow> RNG \<Rightarrow> int \<times> RNG" where
  "uniform_int a b rng =
     (case next_raw rng of (w, rng') \<Rightarrow> (a + int w mod (b - a + 1), rng'))"

text \<open>
  \<^verbatim>\<open>weighted_choice\<close> computes with doubles: its sums round, may overflow to an
  infinity or be a NaN, and its comparisons are false on a NaN. So the double-precision
  arithmetic it uses is a parameter of the model: a type \<open>'d\<close> of doubles with its zero,
  its addition, its comparison \<open>\<le>\<close>, and the value the library's real distribution
  makes of a raw generator output for the bounds \<open>a\<close> and \<open>b\<close>. Nothing is assumed
  about them, so what is proved holds for the doubles of any platform.
\<close>

record 'd fp_ops =
  fzero :: 'd
  fadd :: "'d \<Rightarrow> 'd \<Rightarrow> 'd"
  fle :: "'d \<Rightarrow> 'd \<Rightarrow> bool"
  fdraw :: "'d \<Rightarrow> 'd \<Rightarrow> nat \<Rightarrow> 'd"

definition uniform_double_fp :: "'d fp_ops \<Rightarrow> 'd \<Rightarrow> 'd \<Rightarrow> RNG \<Rightarrow> 'd \<times> RNG" where
  "uniform_double_fp fp a b rng =
     (case next_raw rng of (w, rng') \<Rightarrow> (fdraw fp a b w, rng'))"

text \<open>
  The scanning loop of \<^verbatim>\<open>weighted_choice\<close>: \<open>acc\<close> is the running sum, \<open>i\<close> the
  index of the head of the remaining weights; \<open>None\<close> when the loop runs off the end.
\<close>

fun weighted_scan :: "'d fp_ops \<Rightarrow> 'd \<Rightarrow> 'd \<Rightarrow> 'd list \<Rightarrow> nat \<Rightarrow> nat option" where
  "weighted_scan fp r acc [] i = None"
| "weighted_scan fp r acc (w # ws) i =
     (if fle fp r (fadd fp acc w) then Some i
      else weighted_scan fp r (fadd fp acc w) ws (Suc i))"

definition weighted_choice :: "'d fp_ops \<Rightarrow> 'd list \<Rightarrow> RNG \<Rightarrow> int \<times> RNG" where
  "weighted_choice fp weights rng =
     (if weights = [] then (- 1, rng)
      else
        let sum = foldl (fadd fp) (fzero fp) weights in
        if fle fp sum (fzero fp) then uniform_int 0 (int (length weights) - 1) rng
        else
          case uniform_double_fp fp (fzero fp) sum rng of (r, rng') \<Rightarrow>
            (case weighted_scan fp r (fzero fp) weights 0 of
               Some i \<Rightarrow> (int i, rng')
             | None \<Rightarrow> (int (length weights - 1), rng')))"

text \<open>
  The arithmetic of the exact reals, with the real distribution as \<open>uniform_double\<close> has
  it. The rest of the model, which keeps times and weights as reals, uses it.
\<close>

definition real_fp :: "real fp_ops" where
  "real_fp = \<lparr>fzero = 0, fadd = (+), fle = (\<le>), fdraw = (\<lambda>a b w. a + (b - a) * canonical w)\<rparr>"

section \<open>Mode A: the Tangle simulation (tangle_sim.cpp)\<close>

text \<open>
  Node ids are the source's \<^verbatim>\<open>int\<close>, modelled as unbounded integers (a run that
  overflows 32 bits would need more than \<open>2^31\<close> nodes in memory). A
  \<^verbatim>\<open>std::unordered_set<int>\<close> is a duplicate-free list: \<open>insert\<close> appends an absent
  element, \<open>erase\<close> removes it, \<open>count\<close> is membership. Its iteration order is
  implementation-defined in the source; the model iterates in insertion order.
\<close>

datatype TipSelectionMode = RANDOM_ONLY | MCMC_ONLY | HYBRID

record TxNode =
  tx_id :: int
  timestamp :: real
  height :: int
  parents :: "int list"
  children :: "int list"

record Process =
  proc_id :: int
  knownNodes :: "int list"
  tipSet :: "int list"

record Message =
  deliverTime :: real
  receiverId :: int
  nodeId :: int

definition us_insert :: "int \<Rightarrow> int list \<Rightarrow> int list" where
  "us_insert x xs = (if x \<in> set xs then xs else xs @ [x])"

definition us_erase :: "int \<Rightarrow> int list \<Rightarrow> int list" where
  "us_erase x xs = removeAll x xs"

text \<open>The first loop of \<^verbatim>\<open>processReceiveNode\<close>: known parents leave the tip set.\<close>

fun eraseKnownParents :: "int list \<Rightarrow> int list \<Rightarrow> int list \<Rightarrow> int list" where
  "eraseKnownParents known [] tips = tips"
| "eraseKnownParents known (p # ps) tips =
     eraseKnownParents known ps (if p \<in> set known then us_erase p tips else tips)"

text \<open>The second loop: stops with \<open>True\<close> at the first known child.\<close>

fun hasKnownChild :: "int list \<Rightarrow> int list \<Rightarrow> bool" where
  "hasKnownChild known [] = False"
| "hasKnownChild known (c # cs) = (if c \<in> set known then True else hasKnownChild known cs)"

definition processReceiveNode :: "TxNode list \<Rightarrow> Process \<Rightarrow> int \<Rightarrow> Process" where
  "processReceiveNode g proc nid =
     (if nid \<in> set (knownNodes proc) then proc
      else
        let known = knownNodes proc @ [nid];
            tips = eraseKnownParents known (parents (g ! nat nid)) (tipSet proc)
        in proc\<lparr>knownNodes := known,
                tipSet := (if \<not> hasKnownChild known (children (g ! nat nid))
                           then us_insert nid tips else tips)\<rparr>)"

definition uniformRandomTip :: "Process \<Rightarrow> RNG \<Rightarrow> int \<times> RNG" where
  "uniformRandomTip proc rng =
     (if tipSet proc = [] then (0, rng)
      else
        let n = int (length (tipSet proc)) in
        case uniform_int 0 (n - 1) rng of (k, rng') \<Rightarrow> (tipSet proc ! nat k, rng'))"

text \<open>
  The \<^verbatim>\<open>while (true)\<close> loop of \<^verbatim>\<open>biasedRandomWalk\<close>, with \<open>current\<close> as its
  argument. Nothing in the loop bounds it, so it is a partial function: \<open>None\<close> means
  that the walk does not return.
\<close>

partial_function (option) biasedRandomWalk_loop ::
  "TxNode list \<Rightarrow> Process \<Rightarrow> real \<Rightarrow> int \<Rightarrow> RNG \<Rightarrow> (int \<times> RNG) option" where
  "biasedRandomWalk_loop g proc alpha current rng =
     (let knownChildren = filter (\<lambda>c. c \<in> set (knownNodes proc)) (children (g ! nat current)) in
      if knownChildren = [] then Some (current, rng)
      else
        let weights = map (\<lambda>childId. exp (alpha * real_of_int (height (g ! nat childId)))) knownChildren in
        case weighted_choice real_fp weights rng of (idx, rng') \<Rightarrow>
          if idx < 0 then Some (knownChildren ! 0, rng')
          else biasedRandomWalk_loop g proc alpha (knownChildren ! nat idx) rng')"

definition biasedRandomWalk :: "TxNode list \<Rightarrow> Process \<Rightarrow> RNG \<Rightarrow> real \<Rightarrow> (int \<times> RNG) option" where
  "biasedRandomWalk g proc rng alpha = biasedRandomWalk_loop g proc alpha 0 rng"

text \<open>
  The same loop with a counter of the iterations it may still make: \<open>None\<close> when the
  counter runs out before the walk returns.
\<close>

fun biasedRandomWalk_steps ::
  "nat \<Rightarrow> TxNode list \<Rightarrow> Process \<Rightarrow> real \<Rightarrow> int \<Rightarrow> RNG \<Rightarrow> (int \<times> RNG) option" where
  "biasedRandomWalk_steps 0 g proc alpha current rng = None"
| "biasedRandomWalk_steps (Suc n) g proc alpha current rng =
     (let knownChildren = filter (\<lambda>c. c \<in> set (knownNodes proc)) (children (g ! nat current)) in
      if knownChildren = [] then Some (current, rng)
      else
        let weights = map (\<lambda>childId. exp (alpha * real_of_int (height (g ! nat childId)))) knownChildren in
        case weighted_choice real_fp weights rng of (idx, rng') \<Rightarrow>
          if idx < 0 then Some (knownChildren ! 0, rng')
          else biasedRandomWalk_steps n g proc alpha (knownChildren ! nat idx) rng')"

text \<open>One iteration of the loop of \<^verbatim>\<open>selectTips\<close>.\<close>

definition selectTip ::
  "TxNode list \<Rightarrow> Process \<Rightarrow> RNG \<Rightarrow> TipSelectionMode \<Rightarrow> real \<Rightarrow> real \<Rightarrow> (int \<times> RNG) option" where
  "selectTip g proc rng mode securityBias alphaHigh =
     (case mode of
        RANDOM_ONLY \<Rightarrow> Some (uniformRandomTip proc rng)
      | MCMC_ONLY \<Rightarrow> biasedRandomWalk g proc rng alphaHigh
      | HYBRID \<Rightarrow>
          (case uniform_double 0 1 rng of (r, rng') \<Rightarrow>
             if r < securityBias then biasedRandomWalk g proc rng' alphaHigh
             else Some (uniformRandomTip proc rng')))"

fun selectTips_loop ::
  "TxNode list \<Rightarrow> Process \<Rightarrow> TipSelectionMode \<Rightarrow> real \<Rightarrow> real \<Rightarrow> nat \<Rightarrow> int list \<Rightarrow> RNG
     \<Rightarrow> (int list \<times> RNG) option" where
  "selectTips_loop g proc mode securityBias alphaHigh 0 tips rng = Some (tips, rng)"
| "selectTips_loop g proc mode securityBias alphaHigh (Suc n) tips rng =
     (case selectTip g proc rng mode securityBias alphaHigh of
        None \<Rightarrow> None
      | Some (tip, rng') \<Rightarrow> selectTips_loop g proc mode securityBias alphaHigh n (tips @ [tip]) rng')"

definition selectTips ::
  "TxNode list \<Rightarrow> Process \<Rightarrow> RNG \<Rightarrow> TipSelectionMode \<Rightarrow> real \<Rightarrow> real \<Rightarrow> int
     \<Rightarrow> (int list \<times> RNG) option" where
  "selectTips g proc rng mode securityBias alphaHigh numTips =
     selectTips_loop g proc mode securityBias alphaHigh (nat numTips) [] rng"

text \<open>
  The message queue is a \<^verbatim>\<open>std::priority_queue\<close> ordered by \<open>deliverTime\<close> alone. The
  model keeps the messages in the order they were pushed; \<open>pq_top\<close> is the earliest
  pushed message of minimal \<open>deliverTime\<close> (the source leaves the order among equal
  times to the library's heap).
\<close>

definition pq_push :: "Message \<Rightarrow> Message list \<Rightarrow> Message list" where
  "pq_push m ms = ms @ [m]"

fun pq_top :: "Message list \<Rightarrow> Message option" where
  "pq_top [] = None"
| "pq_top (m # ms) =
     (case pq_top ms of
        None \<Rightarrow> Some m
      | Some m' \<Rightarrow> if deliverTime m' < deliverTime m then Some m' else Some m)"

definition pq_pop :: "Message list \<Rightarrow> Message list" where
  "pq_pop ms = (case pq_top ms of None \<Rightarrow> ms | Some m \<Rightarrow> remove1 m ms)"

text \<open>
  Times are doubles. The model keeps them as reals, the finite doubles being reals, but a
  sum or a quotient of two doubles is rounded, so these two operations are parameters of
  the model: \<open>dadd\<close> and \<open>ddiv\<close> are the platform's double sum and quotient. Comparing
  two doubles is exact. Infinite and NaN times and durations are outside the model.
\<close>

record dbl_ops =
  dadd :: "real \<Rightarrow> real \<Rightarrow> real"
  ddiv :: "real \<Rightarrow> real \<Rightarrow> real"

text \<open>\<^verbatim>\<open>broadcastNode\<close> returns the queue, the generator and the message counter.\<close>

fun broadcastNode ::
  "dbl_ops \<Rightarrow> int \<Rightarrow> int \<Rightarrow> Process list \<Rightarrow> Message list \<Rightarrow> RNG \<Rightarrow> real \<Rightarrow> real \<Rightarrow> real \<Rightarrow> int
     \<Rightarrow> Message list \<times> RNG \<times> int" where
  "broadcastNode dbl nid senderId [] pq rng now minDelay maxDelay sent = (pq, rng, sent)"
| "broadcastNode dbl nid senderId (p # ps) pq rng now minDelay maxDelay sent =
     (if proc_id p = senderId
      then broadcastNode dbl nid senderId ps pq rng now minDelay maxDelay sent
      else
        case uniform_double minDelay maxDelay rng of (delay, rng') \<Rightarrow>
          broadcastNode dbl nid senderId ps
            (pq_push \<lparr>deliverTime = dadd dbl now delay, receiverId = proc_id p, nodeId = nid\<rparr> pq)
            rng' now minDelay maxDelay (sent + 1))"

text \<open>
  The parameters of \<^verbatim>\<open>runTangleSimulation\<close>, one field per argument, and the state
  of a run: the three file-level globals and the locals of the function that outlive a
  loop iteration. \<open>out\<close> holds the data rows written so far, as numbers; the text the
  stream makes of a number is outside the model.

  The file holds two revisions of the simulation. They differ in the message counter
  and in the last two columns of the output, which the first revision (lines 1 to 319)
  does not have, and in nothing else. The model follows the second and takes the
  revision as a parameter where the output is written; a row has \<open>None\<close> in a column
  its revision does not write. In the column \<open>avg_local_tips\<close>, \<open>None\<close> is the NaN that
  the division by \<open>numProcesses = 0\<close> gives.
\<close>

datatype Revision = Rev1 | Rev2

record TangleParams =
  numProcesses :: int
  lambdaPerProcess :: real
  simDuration :: real
  minDelay :: real
  maxDelay :: real
  mode :: TipSelectionMode
  securityBias :: real
  alphaHigh :: real
  seed :: nat
  outputPath :: string

record MetricsRow =
  time :: real
  global_tips :: int
  avg_local_tips :: "real option"
  min_local_tips :: int
  max_local_tips :: int
  total_nodes :: int
  tip_ratio :: "real option"
  messages_sent :: "int option"

record TangleState =
  g_nodes :: "TxNode list"
  g_globalTips :: "int list"
  g_messagesSent :: int
  procs :: "Process list"
  pq :: "Message list"
  rng :: RNG
  out :: "MetricsRow list"

definition txProb :: "TangleParams \<Rightarrow> real" where
  "txProb cfg = (let p = lambdaPerProcess cfg * 1 in if p > 1 then 1 else p)"

text \<open>The body of the delivery loop for the message \<open>m\<close> on top of the queue.\<close>

definition deliverTop :: "Message \<Rightarrow> TangleState \<Rightarrow> TangleState" where
  "deliverTop m s =
     (let s1 = s\<lparr>pq := pq_pop (pq s)\<rparr> in
      if nodeId m < 0 \<or> nodeId m \<ge> int (length (g_nodes s1)) then s1
      else
        s1\<lparr>procs := (procs s1)[nat (receiverId m) :=
              processReceiveNode (g_nodes s1) (procs s1 ! nat (receiverId m)) (nodeId m)]\<rparr>)"

function deliverMessages :: "real \<Rightarrow> TangleState \<Rightarrow> TangleState" where
  "deliverMessages now s =
     (case pq_top (pq s) of
        None \<Rightarrow> s
      | Some m \<Rightarrow> if deliverTime m \<le> now then deliverMessages now (deliverTop m s) else s)"
  by pat_completeness auto
termination
proof (relation "measure (\<lambda>(now, s). length (pq s))")
  show "wf (measure (\<lambda>(now, s). length (pq s)))" by simp
next
  fix now :: real and s :: TangleState and m :: Message
  assume top: "pq_top (pq s) = Some m"
  have mem: "m' \<in> set ms" if "pq_top ms = Some m'" for ms m'
    using that by (induction ms arbitrary: m') (auto split: option.splits if_splits)
  have "m \<in> set (pq s)" using mem[OF top] .
  moreover from this have "0 < length (pq s)" by (cases "pq s") auto
  ultimately have "length (remove1 m (pq s)) < length (pq s)"
    by (simp add: length_remove1)
  then have "length (pq (deliverTop m s)) < length (pq s)"
    using top by (simp add: deliverTop_def pq_pop_def Let_def)
  then show "((now, deliverTop m s), (now, s)) \<in> measure (\<lambda>(now, s). length (pq s))"
    by simp
qed

text \<open>The two loops over the selected tips in the body of the creation loop.\<close>

fun maxParentHeight :: "TxNode list \<Rightarrow> int list \<Rightarrow> int \<Rightarrow> int" where
  "maxParentHeight g [] maxH = maxH"
| "maxParentHeight g (p # ps) maxH =
     (let h = height (g ! nat p) in maxParentHeight g ps (if h > maxH then h else maxH))"

fun linkParents :: "int \<Rightarrow> int list \<Rightarrow> TxNode list \<times> int list \<Rightarrow> TxNode list \<times> int list" where
  "linkParents newId [] (g, gt) = (g, gt)"
| "linkParents newId (p # ps) (g, gt) =
     linkParents newId ps
       (g[nat p := (g ! nat p)\<lparr>children := children (g ! nat p) @ [newId]\<rparr>], us_erase p gt)"

text \<open>
  The body of the creation loop for the process at index \<open>i\<close>: one draw, and a new
  transaction when the draw is below \<open>txProb\<close>.
\<close>

definition createTransaction ::
  "dbl_ops \<Rightarrow> TangleParams \<Rightarrow> real \<Rightarrow> nat \<Rightarrow> TangleState \<Rightarrow> TangleState option" where
  "createTransaction dbl cfg now i s =
     (case uniform_double 0 1 (rng s) of (r, rng1) \<Rightarrow>
        if r < txProb cfg then
          let pr = procs s ! i;
              newId = int (length (g_nodes s))
          in
            case selectTips (g_nodes s) pr rng1 (mode cfg) (securityBias cfg) (alphaHigh cfg) 2 of
              None \<Rightarrow> None
            | Some (tips, rng2) \<Rightarrow>
                let maxH = maxParentHeight (g_nodes s) tips 0;
                    node = \<lparr>tx_id = newId, timestamp = now, height = maxH + 1,
                            parents = tips, children = []\<rparr>
                in
                  case linkParents newId tips (g_nodes s @ [node], g_globalTips s) of (g', gt) \<Rightarrow>
                    let pr' = processReceiveNode g' pr newId;
                        procs' = (procs s)[i := pr']
                    in
                      case broadcastNode dbl newId (proc_id pr') procs' (pq s) rng2 now
                             (minDelay cfg) (maxDelay cfg) (g_messagesSent s) of
                        (pq', rng3, sent) \<Rightarrow>
                          Some (s\<lparr>g_nodes := g', g_globalTips := us_insert newId gt,
                                  g_messagesSent := sent, procs := procs', pq := pq',
                                  rng := rng3\<rparr>)
        else Some (s\<lparr>rng := rng1\<rparr>))"

fun createTransactions ::
  "dbl_ops \<Rightarrow> TangleParams \<Rightarrow> real \<Rightarrow> nat list \<Rightarrow> TangleState \<Rightarrow> TangleState option" where
  "createTransactions dbl cfg now [] s = Some s"
| "createTransactions dbl cfg now (i # is) s =
     (case createTransaction dbl cfg now i s of
        None \<Rightarrow> None
      | Some s' \<Rightarrow> createTransactions dbl cfg now is s')"

text \<open>The metrics loop: total, minimum and maximum of the local tip counts.\<close>

fun localTipStats :: "Process list \<Rightarrow> int \<times> int \<times> int \<Rightarrow> int \<times> int \<times> int" where
  "localTipStats [] acc = acc"
| "localTipStats (pr # prs) (totalLocalTips, minLocalTips, maxLocalTips) =
     (let c = int (length (tipSet pr)) in
      localTipStats prs
        (totalLocalTips + c,
         if c < minLocalTips then c else minLocalTips,
         if c > maxLocalTips then c else maxLocalTips))"

text \<open>
  One metrics row. The two divisions are double divisions. With no process the
  first is \<open>0.0 / 0\<close>, a NaN.
\<close>

definition metricsRow :: "Revision \<Rightarrow> dbl_ops \<Rightarrow> TangleParams \<Rightarrow> real \<Rightarrow> TangleState \<Rightarrow> MetricsRow" where
  "metricsRow rv dbl cfg now s =
     (case localTipStats (procs s) (0, 2147483647, 0) of
        (totalLocalTips, minLocalTips, maxLocalTips) \<Rightarrow>
          let avgLocalTips =
                (if numProcesses cfg = 0 then None
                 else Some (ddiv dbl (real_of_int totalLocalTips) (real_of_int (numProcesses cfg))));
              totalNodes = int (length (g_nodes s));
              globalTips = int (length (g_globalTips s));
              tipRatio = (if totalNodes > 0
                          then ddiv dbl (real_of_int globalTips) (real_of_int totalNodes) else 0)
          in \<lparr>time = now, global_tips = globalTips, avg_local_tips = avgLocalTips,
               min_local_tips = minLocalTips, max_local_tips = maxLocalTips,
               total_nodes = totalNodes,
               tip_ratio = (case rv of Rev1 \<Rightarrow> None | Rev2 \<Rightarrow> Some tipRatio),
               messages_sent = (case rv of Rev1 \<Rightarrow> None | Rev2 \<Rightarrow> Some (g_messagesSent s))\<rparr>)"

text \<open>
  One pass of the main loop at time \<open>now\<close>: deliver, create, log. The progress line
  on the console is not modelled.
\<close>

definition simStep ::
  "Revision \<Rightarrow> dbl_ops \<Rightarrow> TangleParams \<Rightarrow> real \<Rightarrow> TangleState \<Rightarrow> TangleState option" where
  "simStep rv dbl cfg now s =
     (let s1 = deliverMessages now s in
      case createTransactions dbl cfg now [0..<length (procs s1)] s1 of
        None \<Rightarrow> None
      | Some s2 \<Rightarrow> Some (s2\<lparr>out := out s2 @ [metricsRow rv dbl cfg now s2]\<rparr>))"

text \<open>
  The main loop. The clock advances by the double sum \<open>now + 1.0\<close>, which need not be
  greater than \<open>now\<close>, so the loop is a partial function: \<open>None\<close> is a loop that does
  not end.
\<close>

partial_function (option) simLoop ::
  "Revision \<Rightarrow> dbl_ops \<Rightarrow> TangleParams \<Rightarrow> real \<Rightarrow> TangleState \<Rightarrow> TangleState option" where
  "simLoop rv dbl cfg now s =
     (if now \<le> simDuration cfg then
        case simStep rv dbl cfg now s of
          None \<Rightarrow> None
        | Some s' \<Rightarrow> simLoop rv dbl cfg (dadd dbl now 1) s'
      else Some s)"

text \<open>
  The state before the main loop: the genesis transaction, known to every process and
  a tip of every process. \<open>mt\<close> is the library's generator: the sequence of raw outputs
  it produces from a seed.
\<close>

definition genesis :: TxNode where
  "genesis = \<lparr>tx_id = 0, timestamp = 0, height = 0, parents = [], children = []\<rparr>"

definition initProcs :: "int \<Rightarrow> Process list" where
  "initProcs n = map (\<lambda>i. \<lparr>proc_id = int i, knownNodes = [0], tipSet = [0]\<rparr>) [0..<nat n]"

definition initState :: "(nat \<Rightarrow> nat \<Rightarrow> nat) \<Rightarrow> TangleParams \<Rightarrow> TangleState" where
  "initState mt cfg =
     \<lparr>g_nodes = [genesis], g_globalTips = [0], g_messagesSent = 0,
      procs = initProcs (numProcesses cfg), pq = [],
      rng = \<lparr>gen = mt (seed cfg), used = 0\<rparr>, out = []\<rparr>"

text \<open>
  What a run leaves behind: either it stops with an error, or it returns with the
  header and the data rows in the output file. \<^verbatim>\<open>std::vector<Process> procs(n)\<close> throws
  for a negative \<open>n\<close>, and nothing catches it; whether the path can be opened is up to
  the file system, the parameter \<open>openable\<close>. \<open>None\<close> is a run that does not return.
\<close>

datatype run_error = LengthError | OpenFailed string

definition tangle_header :: "Revision \<Rightarrow> string" where
  "tangle_header rv =
     (case rv of
        Rev1 \<Rightarrow> ''time,global_tips,avg_local_tips,min_local_tips,max_local_tips,total_nodes''
      | Rev2 \<Rightarrow> ''time,global_tips,avg_local_tips,min_local_tips,max_local_tips,total_nodes,tip_ratio,messages_sent'')"

definition runTangleSimulation ::
  "Revision \<Rightarrow> (nat \<Rightarrow> nat \<Rightarrow> nat) \<Rightarrow> (string \<Rightarrow> bool) \<Rightarrow> dbl_ops \<Rightarrow> TangleParams
     \<Rightarrow> (run_error + string \<times> MetricsRow list) option" where
  "runTangleSimulation rv mt openable dbl cfg =
     (if numProcesses cfg < 0 then Some (Inl LengthError)
      else if \<not> openable (outputPath cfg)
      then Some (Inl (OpenFailed (''Failed to open output file: '' @ outputPath cfg)))
      else
        case simLoop rv dbl cfg 0 (initState mt cfg) of
          None \<Rightarrow> None
        | Some s \<Rightarrow> Some (Inr (tangle_header rv, out s)))"

text \<open>
  The states of a run, between two loop iterations: the state before the main loop, and
  from a state of a run the state after one iteration of the delivery loop, of the
  creation loop, or after the row is logged. The rules do not say when an iteration
  happens, nor on which platform, so every state the loops of \<open>simLoop\<close> pass through
  is among them. The number \<open>k\<close> counts the messages pushed on the queue since the run started: only an
  iteration of the creation loop pushes any, and it pops none.
\<close>

inductive tangle_reachable :: "TangleParams \<Rightarrow> nat \<Rightarrow> TangleState \<Rightarrow> bool" for cfg where
  init: "0 \<le> numProcesses cfg \<Longrightarrow> tangle_reachable cfg 0 (initState mt cfg)"
| deliver: "tangle_reachable cfg k s \<Longrightarrow> pq_top (pq s) = Some m \<Longrightarrow>
     tangle_reachable cfg k (deliverTop m s)"
| create: "tangle_reachable cfg k s \<Longrightarrow> i < length (procs s) \<Longrightarrow>
     createTransaction dbl cfg now i s = Some s' \<Longrightarrow>
     tangle_reachable cfg (k + (length (pq s') - length (pq s))) s'"
| log: "tangle_reachable cfg k s \<Longrightarrow>
     tangle_reachable cfg k (s\<lparr>out := out s @ [metricsRow rv dbl cfg now s]\<rparr>)"

text \<open>
  The graph as the creation loop builds it: ids are positions, parents come before
  their node, and \<open>c\<close> is a child of \<open>i\<close> exactly when \<open>i\<close> is a parent of \<open>c\<close>.
\<close>

definition graph_ok :: "TxNode list \<Rightarrow> bool" where
  "graph_ok g \<longleftrightarrow>
     g \<noteq> [] \<and>
     (\<forall>i<length g.
        tx_id (g ! i) = int i \<and>
        (\<forall>p\<in>set (parents (g ! i)). 0 \<le> p \<and> p < int i) \<and>
        (\<forall>c. c \<in> set (children (g ! i)) \<longleftrightarrow>
               0 \<le> c \<and> nat c < length g \<and> int i \<in> set (parents (g ! nat c))))"

text \<open>A process's view: it knows genesis and only existing nodes, and its tips are the
  known nodes without a known child.\<close>

definition view_ok :: "TxNode list \<Rightarrow> Process \<Rightarrow> bool" where
  "view_ok g p \<longleftrightarrow>
     0 \<in> set (knownNodes p) \<and>
     (\<forall>n\<in>set (knownNodes p). 0 \<le> n \<and> n < int (length g)) \<and>
     (\<forall>n. n \<in> set (tipSet p) \<longleftrightarrow>
            n \<in> set (knownNodes p) \<and> (\<forall>c\<in>set (children (g ! nat n)). c \<notin> set (knownNodes p)))"

definition tangle_inv :: "TangleState \<Rightarrow> bool" where
  "tangle_inv s \<longleftrightarrow>
     graph_ok (g_nodes s) \<and>
     (\<forall>p\<in>set (procs s). view_ok (g_nodes s) p) \<and>
     (\<forall>i<length (procs s). proc_id (procs s ! i) = int i) \<and>
     (\<forall>m\<in>set (pq s). 0 \<le> receiverId m \<and> nat (receiverId m) < length (procs s))"

section \<open>Mode B: the witness simulation (witness_sim.cpp)\<close>

text \<open>
  \<^verbatim>\<open>WMessage\<close> has the fields of \<^verbatim>\<open>Message\<close> and the same comparison, so the model
  uses one type and one queue for both. Names that the two files share carry the suffix
  \<open>_w\<close> here.
\<close>

record WNode =
  w_id :: int
  owner :: int
  w_timestamp :: real
  w_parents :: "int list"
  w_children :: "int list"
  isLeaf :: bool

record WProcess =
  wp_id :: int
  lastBlockId :: int
  knownBlocks :: "int list"

type_synonym WMessage = Message

definition processReceiveBlock :: "WProcess \<Rightarrow> int \<Rightarrow> WProcess" where
  "processReceiveBlock proc nid = proc\<lparr>knownBlocks := us_insert nid (knownBlocks proc)\<rparr>"

fun broadcastNode_w ::
  "dbl_ops \<Rightarrow> int \<Rightarrow> int \<Rightarrow> WProcess list \<Rightarrow> WMessage list \<Rightarrow> RNG \<Rightarrow> real \<Rightarrow> real \<Rightarrow> real
     \<Rightarrow> WMessage list \<times> RNG" where
  "broadcastNode_w dbl nid senderId [] q rg t mn mx = (q, rg)"
| "broadcastNode_w dbl nid senderId (p # ps) q rg t mn mx =
     (if wp_id p = senderId then broadcastNode_w dbl nid senderId ps q rg t mn mx
      else
        case uniform_double mn mx rg of (delay, rg') \<Rightarrow>
          broadcastNode_w dbl nid senderId ps
            (pq_push \<lparr>deliverTime = dadd dbl t delay, receiverId = wp_id p, nodeId = nid\<rparr> q)
            rg' t mn mx)"

record Cand =
  c_owner :: int
  blockId :: int
  ts :: real

text \<open>
  The first loop of \<^verbatim>\<open>selectWitnesses\<close>, over the known blocks, updating the two
  vectors \<open>bestBlock\<close> and \<open>bestTs\<close>.
\<close>

fun scanKnown ::
  "WNode list \<Rightarrow> WProcess \<Rightarrow> int list \<Rightarrow> int list \<times> real list \<Rightarrow> int list \<times> real list" where
  "scanKnown g proc [] (bestBlock, bestTs) = (bestBlock, bestTs)"
| "scanKnown g proc (bid # bids) (bestBlock, bestTs) =
     (if bid < 0 \<or> bid \<ge> int (length g) then scanKnown g proc bids (bestBlock, bestTs)
      else
        let n = g ! nat bid in
        if owner n < 0 then scanKnown g proc bids (bestBlock, bestTs)
        else if owner n = wp_id proc then scanKnown g proc bids (bestBlock, bestTs)
        else if w_timestamp n > bestTs ! nat (owner n)
        then scanKnown g proc bids
               (bestBlock[nat (owner n) := bid], bestTs[nat (owner n) := w_timestamp n])
        else scanKnown g proc bids (bestBlock, bestTs))"

text \<open>The second loop, over the owners in ascending order.\<close>

fun collectCands :: "WProcess \<Rightarrow> int list \<Rightarrow> real list \<Rightarrow> nat list \<Rightarrow> Cand list" where
  "collectCands proc bestBlock bestTs [] = []"
| "collectCands proc bestBlock bestTs (ow # ows) =
     (if int ow = wp_id proc then collectCands proc bestBlock bestTs ows
      else if bestBlock ! ow \<noteq> - 1
      then \<lparr>c_owner = int ow, blockId = bestBlock ! ow, ts = bestTs ! ow\<rparr>
             # collectCands proc bestBlock bestTs ows
      else collectCands proc bestBlock bestTs ows)"

text \<open>The last loop: it stops as soon as \<open>maxWitnesses\<close> witnesses are collected.\<close>

fun takeWitnesses :: "int \<Rightarrow> Cand list \<Rightarrow> int list \<Rightarrow> int list" where
  "takeWitnesses maxW [] witnesses = witnesses"
| "takeWitnesses maxW (c # cs) witnesses =
     (if int (length witnesses) \<ge> maxW then witnesses
      else takeWitnesses maxW cs (witnesses @ [blockId c]))"

definition candidates :: "WNode list \<Rightarrow> int \<Rightarrow> WProcess \<Rightarrow> Cand list" where
  "candidates g numUsers_g proc =
     (case scanKnown g proc (knownBlocks proc)
             (replicate (nat numUsers_g) (- 1), replicate (nat numUsers_g) (- 1)) of
        (bestBlock, bestTs) \<Rightarrow> collectCands proc bestBlock bestTs [0..<nat numUsers_g])"

text \<open>
  \<^verbatim>\<open>std::sort\<close> belongs to the library, and the order it gives candidates of equal
  timestamp is the library's own. So the sort is a parameter of the model: \<open>srt\<close> is
  what \<^verbatim>\<open>std::sort\<close> with the comparison \<open>a.ts > b.ts\<close> makes of a list. What the
  standard promises of it is \<open>sorts_desc\<close>: the result is a rearrangement of the list
  in which no element has a greater timestamp than an element before it.
\<close>

definition sorts_desc :: "(Cand list \<Rightarrow> Cand list) \<Rightarrow> bool" where
  "sorts_desc srt \<longleftrightarrow>
     (\<forall>cs. mset (srt cs) = mset cs \<and> sorted_wrt (\<lambda>a b. ts b \<le> ts a) (srt cs))"

definition selectWitnesses ::
  "(Cand list \<Rightarrow> Cand list) \<Rightarrow> WNode list \<Rightarrow> int \<Rightarrow> WProcess \<Rightarrow> int \<Rightarrow> int list" where
  "selectWitnesses srt g numUsers_g proc maxW =
     takeWitnesses maxW (srt (candidates g numUsers_g proc)) []"

record WitnessParams =
  numUsers :: int
  postProbPerStep :: real
  simDuration_w :: real
  minDelay_w :: real
  maxDelay_w :: real
  maxWitnesses :: int
  seed_w :: nat
  outputPath_w :: string

record WitnessRow =
  time_w :: real
  global_leaves :: int
  total_nodes_w :: int

record WitnessState =
  g_wnodes :: "WNode list"
  g_globalLeaves :: "int list"
  g_numUsers :: int
  procs_w :: "WProcess list"
  pq_w :: "WMessage list"
  rng_w :: RNG
  out_w :: "WitnessRow list"

definition deliverTop_w :: "WMessage \<Rightarrow> WitnessState \<Rightarrow> WitnessState" where
  "deliverTop_w m s =
     (let s1 = s\<lparr>pq_w := pq_pop (pq_w s)\<rparr> in
      if nodeId m < 0 \<or> nodeId m \<ge> int (length (g_wnodes s1)) then s1
      else
        s1\<lparr>procs_w := (procs_w s1)[nat (receiverId m) :=
              processReceiveBlock (procs_w s1 ! nat (receiverId m)) (nodeId m)]\<rparr>)"


text \<open>The loop that appends the witnesses other than the own-chain parent.\<close>

fun addWitnesses :: "int list \<Rightarrow> int list \<Rightarrow> int list" where
  "addWitnesses [] ps = ps"
| "addWitnesses (w # ws) ps = addWitnesses ws (if w \<noteq> ps ! 0 then ps @ [w] else ps)"

definition blockParents ::
  "(Cand list \<Rightarrow> Cand list) \<Rightarrow> WNode list \<Rightarrow> int \<Rightarrow> WProcess \<Rightarrow> int \<Rightarrow> int list" where
  "blockParents srt g numUsers_g pr maxW =
     addWitnesses (selectWitnesses srt g numUsers_g pr maxW)
       (if lastBlockId pr \<noteq> - 1 then [lastBlockId pr] else [0])"

text \<open>The loop over the parents of the new block: child lists and leaf status.\<close>

fun linkParents_w :: "int \<Rightarrow> int list \<Rightarrow> WNode list \<times> int list \<Rightarrow> WNode list \<times> int list" where
  "linkParents_w newId [] (g, leaves) = (g, leaves)"
| "linkParents_w newId (p # ps) (g, leaves) =
     (let g1 = g[nat p := (g ! nat p)\<lparr>w_children := w_children (g ! nat p) @ [newId]\<rparr>] in
      if isLeaf (g1 ! nat p)
      then linkParents_w newId ps (g1[nat p := (g1 ! nat p)\<lparr>isLeaf := False\<rparr>], us_erase p leaves)
      else linkParents_w newId ps (g1, leaves))"

text \<open>The body of the posting loop for the user at index \<open>i\<close>.\<close>

definition postBlock ::
  "(Cand list \<Rightarrow> Cand list) \<Rightarrow> dbl_ops \<Rightarrow> WitnessParams \<Rightarrow> real \<Rightarrow> nat \<Rightarrow> WitnessState
     \<Rightarrow> WitnessState" where
  "postBlock srt dbl cfg t i s =
     (case uniform_double 0 1 (rng_w s) of (r, rg1) \<Rightarrow>
        if r < postProbPerStep cfg then
          let pr = procs_w s ! i;
              newId = int (length (g_wnodes s));
              node = \<lparr>w_id = newId, owner = wp_id pr, w_timestamp = t,
                      w_parents = blockParents srt (g_wnodes s) (g_numUsers s) pr (maxWitnesses cfg),
                      w_children = [], isLeaf = True\<rparr>
          in
            case linkParents_w newId (w_parents node) (g_wnodes s @ [node], g_globalLeaves s) of
              (g1, leaves) \<Rightarrow>
                let g' = g1[nat newId := (g1 ! nat newId)\<lparr>isLeaf := True\<rparr>];
                    pr' = pr\<lparr>lastBlockId := newId, knownBlocks := us_insert newId (knownBlocks pr)\<rparr>;
                    procs' = (procs_w s)[i := pr']
                in
                  case broadcastNode_w dbl newId (wp_id pr') procs' (pq_w s) rg1 t
                         (minDelay_w cfg) (maxDelay_w cfg) of
                    (q', rg2) \<Rightarrow>
                      s\<lparr>g_wnodes := g', g_globalLeaves := us_insert newId leaves,
                        procs_w := procs', pq_w := q', rng_w := rg2\<rparr>
        else s\<lparr>rng_w := rg1\<rparr>)"


definition witnessRow :: "real \<Rightarrow> WitnessState \<Rightarrow> WitnessRow" where
  "witnessRow t s =
     \<lparr>time_w = t, global_leaves = int (length (g_globalLeaves s)),
      total_nodes_w = int (length (g_wnodes s))\<rparr>"



definition genesis_w :: WNode where
  "genesis_w = \<lparr>w_id = 0, owner = - 1, w_timestamp = 0, w_parents = [], w_children = [],
                isLeaf = True\<rparr>"

definition initProcs_w :: "int \<Rightarrow> WProcess list" where
  "initProcs_w n = map (\<lambda>i. \<lparr>wp_id = int i, lastBlockId = - 1, knownBlocks = [0]\<rparr>) [0..<nat n]"

definition initState_w :: "(nat \<Rightarrow> nat \<Rightarrow> nat) \<Rightarrow> WitnessParams \<Rightarrow> WitnessState" where
  "initState_w mt cfg =
     \<lparr>g_wnodes = [genesis_w], g_globalLeaves = [0], g_numUsers = numUsers cfg,
      procs_w = initProcs_w (numUsers cfg), pq_w = [],
      rng_w = \<lparr>gen = mt (seed_w cfg), used = 0\<rparr>, out_w = []\<rparr>"



text \<open>
  The states of a mode B run, between two loop iterations, as for mode A. A posting
  iteration may use any sort that keeps the promise of the standard, on any platform.
  Its time is never negative: the main loop starts at \<open>0\<close> and counts up.
\<close>

inductive witness_reachable :: "WitnessParams \<Rightarrow> WitnessState \<Rightarrow> bool" for cfg where
  init_w: "0 \<le> numUsers cfg \<Longrightarrow> witness_reachable cfg (initState_w mt cfg)"
| deliver_w: "witness_reachable cfg s \<Longrightarrow> pq_top (pq_w s) = Some m \<Longrightarrow>
     witness_reachable cfg (deliverTop_w m s)"
| post_w: "witness_reachable cfg s \<Longrightarrow> i < length (procs_w s) \<Longrightarrow> 0 \<le> t \<Longrightarrow>
     sorts_desc srt \<Longrightarrow> witness_reachable cfg (postBlock srt dbl cfg t i s)"
| log_w: "witness_reachable cfg s \<Longrightarrow>
     witness_reachable cfg (s\<lparr>out_w := out_w s @ [witnessRow t s]\<rparr>)"

section \<open>Notions the properties are stated with\<close>

text \<open>
  The running sum of \<^verbatim>\<open>weighted_choice\<close> after the weights up to index \<open>i\<close>, from
  the start value \<open>acc\<close>, and the cumulative sum through index \<open>i\<close>, which starts at zero.
\<close>

definition partial_sum :: "'d fp_ops \<Rightarrow> 'd \<Rightarrow> 'd list \<Rightarrow> nat \<Rightarrow> 'd" where
  "partial_sum fp acc ws i = foldl (fadd fp) acc (take (Suc i) ws)"

definition cumulative :: "'d fp_ops \<Rightarrow> 'd list \<Rightarrow> nat \<Rightarrow> 'd" where
  "cumulative fp ws i = partial_sum fp (fzero fp) ws i"

text \<open>
  Doubles as the finite reals and one NaN, \<open>None\<close>: a sum with a NaN is a NaN, a
  comparison with a NaN is false, a draw between bounds one of which is a NaN is a NaN.
\<close>

definition nan_fp :: "real option fp_ops" where
  "nan_fp =
     \<lparr>fzero = Some 0,
      fadd = (\<lambda>a b. case a of None \<Rightarrow> None
                     | Some x \<Rightarrow> (case b of None \<Rightarrow> None | Some y \<Rightarrow> Some (x + y))),
      fle = (\<lambda>a b. case a of None \<Rightarrow> False
                    | Some x \<Rightarrow> (case b of None \<Rightarrow> False | Some y \<Rightarrow> x \<le> y)),
      fdraw = (\<lambda>a b w. case a of None \<Rightarrow> None
                        | Some x \<Rightarrow> (case b of None \<Rightarrow> None
                                      | Some y \<Rightarrow> Some (x + (y - x) * canonical w)))\<rparr>"

text \<open>A generator whose every raw output is \<open>2^52\<close>: every canonical draw is one half.\<close>

definition rng0 :: RNG where
  "rng0 = \<lparr>gen = (\<lambda>_. 2 ^ 52), used = 0\<rparr>"

text \<open>A platform whose double sums and quotients are exact.\<close>

definition exact_dbl :: dbl_ops where
  "exact_dbl = \<lparr>dadd = (+), ddiv = (/)\<rparr>"

definition cfg0 :: TangleParams where
  "cfg0 = \<lparr>numProcesses = 2, lambdaPerProcess = 1, simDuration = 2, minDelay = 0, maxDelay = 0,
           mode = RANDOM_ONLY, securityBias = 0, alphaHigh = 0, seed = 0, outputPath = ''out.csv''\<rparr>"

definition mt0 :: "nat \<Rightarrow> nat \<Rightarrow> nat" where
  "mt0 sd i = 0"

definition state1 :: TangleState where
  "state1 =
     \<lparr>g_nodes = [\<lparr>tx_id = 0, timestamp = 0, height = 0, parents = [], children = [1, 1]\<rparr>,
                 \<lparr>tx_id = 1, timestamp = 0, height = 1, parents = [0, 0], children = []\<rparr>],
      g_globalTips = [1], g_messagesSent = 1,
      procs = [\<lparr>proc_id = 0, knownNodes = [0, 1], tipSet = [1]\<rparr>,
               \<lparr>proc_id = 1, knownNodes = [0], tipSet = [0]\<rparr>],
      pq = [\<lparr>deliverTime = 0, receiverId = 1, nodeId = 1\<rparr>],
      rng = \<lparr>gen = mt0 0, used = 4\<rparr>, out = []\<rparr>"

definition wgraph_ok :: "int \<Rightarrow> WNode list \<Rightarrow> bool" where
  "wgraph_ok n g \<longleftrightarrow>
     g \<noteq> [] \<and> owner (g ! 0) = - 1 \<and>
     (\<forall>i<length g.
        w_id (g ! i) = int i \<and>
        (\<forall>p\<in>set (w_parents (g ! i)). 0 \<le> p \<and> p < int i) \<and>
        - 1 \<le> owner (g ! i) \<and> owner (g ! i) < n \<and> 0 \<le> w_timestamp (g ! i))"

definition user_ok :: "WNode list \<Rightarrow> WProcess \<Rightarrow> bool" where
  "user_ok g p \<longleftrightarrow>
     (\<forall>b\<in>set (knownBlocks p). 0 \<le> b \<and> b < int (length g)) \<and>
     (if lastBlockId p = - 1 then \<forall>j<length g. owner (g ! j) \<noteq> wp_id p
      else 0 \<le> lastBlockId p \<and> lastBlockId p < int (length g) \<and>
           owner (g ! nat (lastBlockId p)) = wp_id p \<and>
           (\<forall>j<length g. owner (g ! j) = wp_id p \<longrightarrow> int j \<le> lastBlockId p))"

definition witness_inv :: "WitnessState \<Rightarrow> bool" where
  "witness_inv s \<longleftrightarrow>
     wgraph_ok (g_numUsers s) (g_wnodes s) \<and>
     0 \<le> g_numUsers s \<and> length (procs_w s) = nat (g_numUsers s) \<and>
     (\<forall>i<length (procs_w s). wp_id (procs_w s ! i) = int i \<and> user_ok (g_wnodes s) (procs_w s ! i)) \<and>
     (\<forall>m\<in>set (pq_w s). 0 \<le> receiverId m \<and> nat (receiverId m) < length (procs_w s))"

text \<open>
  What the two vectors of \<^verbatim>\<open>selectWitnesses\<close> hold for the owner \<open>ow\<close> after the
  blocks in \<open>S\<close> have been scanned for the user \<open>u\<close>: the initial \<open>-1\<close> when the owner
  is \<open>u\<close> or has no block in \<open>S\<close>, otherwise a block of the owner in \<open>S\<close> of greatest
  timestamp.
\<close>

definition best_for :: "WNode list \<Rightarrow> int \<Rightarrow> int set \<Rightarrow> int \<Rightarrow> int \<Rightarrow> real \<Rightarrow> bool" where
  "best_for g u S ow blk t \<longleftrightarrow>
     (if ow \<noteq> u \<and> (\<exists>b\<in>S. owner (g ! nat b) = ow)
      then blk \<in> S \<and> owner (g ! nat blk) = ow \<and> t = w_timestamp (g ! nat blk) \<and>
           (\<forall>b\<in>S. owner (g ! nat b) = ow \<longrightarrow> w_timestamp (g ! nat b) \<le> t)
      else blk = - 1 \<and> t = - 1)"

definition scanned :: "WNode list \<Rightarrow> int \<Rightarrow> int set \<Rightarrow> int list \<times> real list \<Rightarrow> bool" where
  "scanned g u S bb_bt \<longleftrightarrow>
     (case bb_bt of (bb, bt) \<Rightarrow>
        length bb = length bt \<and>
        (\<forall>ow<length bb. best_for g u S (int ow) (bb ! ow) (bt ! ow)))"

definition latest_per_owner :: "WNode list \<Rightarrow> WProcess \<Rightarrow> Cand list \<Rightarrow> bool" where
  "latest_per_owner g pr cands \<longleftrightarrow>
     distinct (map c_owner cands) \<and>
     (\<forall>c\<in>set cands.
        c_owner c \<noteq> wp_id pr \<and> 0 \<le> c_owner c \<and> blockId c \<in> set (knownBlocks pr) \<and>
        owner (g ! nat (blockId c)) = c_owner c \<and> ts c = w_timestamp (g ! nat (blockId c)) \<and>
        (\<forall>b\<in>set (knownBlocks pr).
           owner (g ! nat b) = c_owner c \<longrightarrow> w_timestamp (g ! nat b) \<le> ts c)) \<and>
     (\<forall>b\<in>set (knownBlocks pr).
        0 \<le> owner (g ! nat b) \<and> owner (g ! nat b) \<noteq> wp_id pr \<longrightarrow>
        owner (g ! nat b) \<in> c_owner ` set cands)"

definition core :: "WNode list \<Rightarrow> (int \<times> int \<times> real \<times> int list) list" where
  "core g = map (\<lambda>n. (w_id n, owner n, w_timestamp n, w_parents n)) g"

text \<open>
  A sort that keeps the promise of the standard: the stable insertion sort on the
  negated timestamp.
\<close>

definition sort_by_ts :: "Cand list \<Rightarrow> Cand list" where
  "sort_by_ts cands = sort_key (\<lambda>c. - ts c) cands"

definition wcfg0 :: WitnessParams where
  "wcfg0 = \<lparr>numUsers = 2, postProbPerStep = 1, simDuration_w = 2, minDelay_w = 0, maxDelay_w = 0,
            maxWitnesses = 1, seed_w = 0, outputPath_w = ''out.csv''\<rparr>"

definition wstate1 :: WitnessState where
  "wstate1 =
     \<lparr>g_wnodes = [\<lparr>w_id = 0, owner = - 1, w_timestamp = 0, w_parents = [], w_children = [1],
                   isLeaf = False\<rparr>,
                  \<lparr>w_id = 1, owner = 0, w_timestamp = 0, w_parents = [0], w_children = [],
                   isLeaf = True\<rparr>],
      g_globalLeaves = [1], g_numUsers = 2,
      procs_w = [\<lparr>wp_id = 0, lastBlockId = 1, knownBlocks = [0, 1]\<rparr>,
                 \<lparr>wp_id = 1, lastBlockId = - 1, knownBlocks = [0]\<rparr>],
      pq_w = [\<lparr>deliverTime = 0, receiverId = 1, nodeId = 1\<rparr>],
      rng_w = \<lparr>gen = mt0 0, used = 2\<rparr>, out_w = []\<rparr>"

definition wstate2 :: WitnessState where
  "wstate2 = wstate1\<lparr>procs_w := [\<lparr>wp_id = 0, lastBlockId = 1, knownBlocks = [0, 1]\<rparr>,
                                   \<lparr>wp_id = 1, lastBlockId = - 1, knownBlocks = [0, 1]\<rparr>],
                      pq_w := []\<rparr>"




text \<open>
  The clock of a run is exact up to \<open>D\<close> when the double sum of a whole number up to
  \<open>D\<close> and \<open>1.0\<close> is the next whole number. Doubles add so below \<open>2^53\<close>.
\<close>

definition clock_exact :: "dbl_ops \<Rightarrow> real \<Rightarrow> bool" where
  "clock_exact dbl D \<longleftrightarrow> (\<forall>k::nat. real k \<le> D \<longrightarrow> dadd dbl (real k) 1 = real k + 1)"

text \<open>
  A mode A configuration without activity: one process that never emits; and the row
  such a run writes at time \<open>t\<close>.
\<close>

definition cfg1 :: TangleParams where
  "cfg1 = cfg0\<lparr>numProcesses := 1, lambdaPerProcess := 0\<rparr>"

definition idle_row :: "Revision \<Rightarrow> real \<Rightarrow> MetricsRow" where
  "idle_row rv t =
     \<lparr>time = t, global_tips = 1, avg_local_tips = Some 1, min_local_tips = 1,
      max_local_tips = 1, total_nodes = 1,
      tip_ratio = (case rv of Rev1 \<Rightarrow> None | Rev2 \<Rightarrow> Some 1),
      messages_sent = (case rv of Rev1 \<Rightarrow> None | Rev2 \<Rightarrow> Some 0)\<rparr>"



section \<open>The random source and the weighted choice\<close>


lemma foldl_plus_sum: "foldl (+) a ws = a + sum_list (ws::real list)"
  by (induction ws arbitrary: a) auto

lemma canonical_range: "0 \<le> canonical w \<and> canonical w < 1"
  unfolding canonical_def by (simp add: divide_less_eq)

lemma uniform_double_range:
  assumes "a < b" "uniform_double a b rg = (r, rg')"
  shows "a \<le> r \<and> r < b"
proof -
  let ?c = "canonical (gen rg (used rg))"
  have r: "r = a + (b - a) * ?c"
    using assms(2) by (auto simp: uniform_double_def next_raw_def)
  have c: "0 \<le> ?c" "?c < 1" using canonical_range by auto
  have "0 \<le> (b - a) * ?c" using assms(1) c by simp
  moreover have "(b - a) * ?c < (b - a) * 1"
    using assms(1) c by (intro mult_strict_left_mono) auto
  ultimately show ?thesis using r by simp
qed

lemma uniform_int_range:
  assumes "a \<le> b" "uniform_int a b rg = (k, rg')"
  shows "a \<le> k \<and> k \<le> b"
proof -
  let ?w = "int (gen rg (used rg))"
  have k: "k = a + ?w mod (b - a + 1)"
    using assms(2) by (auto simp: uniform_int_def next_raw_def)
  have "0 < b - a + 1" using assms(1) by simp
  then have "0 \<le> ?w mod (b - a + 1)" "?w mod (b - a + 1) < b - a + 1"
    by (rule pos_mod_sign, rule pos_mod_bound)
  then show ?thesis using k by simp
qed


lemma uniform_double_real_fp: "uniform_double_fp real_fp a b rg = uniform_double a b rg"
  by (simp add: uniform_double_fp_def uniform_double_def real_fp_def)

lemma partial_sum_Cons_0: "partial_sum fp acc (w # ws) 0 = fadd fp acc w"
  by (simp add: partial_sum_def)

lemma partial_sum_Cons_Suc:
  "partial_sum fp acc (w # ws) (Suc j) = partial_sum fp (fadd fp acc w) ws j"
  by (simp add: partial_sum_def)

lemma partial_sum_last:
  "ws \<noteq> [] \<Longrightarrow> partial_sum fp acc ws (length ws - 1) = foldl (fadd fp) acc ws"
  by (cases ws) (simp_all add: partial_sum_def)

lemma weighted_scan_Some:
  "weighted_scan fp r acc ws i = Some k \<longleftrightarrow>
     (\<exists>j. k = i + j \<and> j < length ws \<and> fle fp r (partial_sum fp acc ws j) \<and>
     (\<forall>j' < j. \<not> fle fp r (partial_sum fp acc ws j')))"
proof (induction ws arbitrary: acc i)
  case Nil
  then show ?case by simp
next
  case (Cons w ws)
  show ?case
  proof (cases "fle fp r (fadd fp acc w)")
    case True
    have "(\<exists>j. k = i + j \<and> j < length (w # ws) \<and> fle fp r (partial_sum fp acc (w # ws) j) \<and>
           (\<forall>j' < j. \<not> fle fp r (partial_sum fp acc (w # ws) j'))) \<longleftrightarrow> k = i"
    proof
      assume "\<exists>j. k = i + j \<and> j < length (w # ws) \<and> fle fp r (partial_sum fp acc (w # ws) j) \<and>
           (\<forall>j' < j. \<not> fle fp r (partial_sum fp acc (w # ws) j'))"
      then obtain j where j: "k = i + j"
        "\<forall>j' < j. \<not> fle fp r (partial_sum fp acc (w # ws) j')" by blast
      have "j = 0"
      proof (rule ccontr)
        assume "j \<noteq> 0"
        then have "0 < j" by simp
        with j(2) have "\<not> fle fp r (partial_sum fp acc (w # ws) 0)" by blast
        then show False using True by (simp add: partial_sum_Cons_0)
      qed
      then show "k = i" using j(1) by simp
    next
      assume "k = i"
      then show "\<exists>j. k = i + j \<and> j < length (w # ws) \<and> fle fp r (partial_sum fp acc (w # ws) j) \<and>
           (\<forall>j' < j. \<not> fle fp r (partial_sum fp acc (w # ws) j'))"
        using True by (intro exI[of _ 0]) (simp add: partial_sum_Cons_0)
    qed
    then show ?thesis using True by auto
  next
    case False
    show ?thesis
    proof
      assume "weighted_scan fp r acc (w # ws) i = Some k"
      then have "weighted_scan fp r (fadd fp acc w) ws (Suc i) = Some k" using False by simp
      then obtain j where j: "k = Suc i + j" "j < length ws"
        "fle fp r (partial_sum fp (fadd fp acc w) ws j)"
        "\<forall>j'<j. \<not> fle fp r (partial_sum fp (fadd fp acc w) ws j')"
        unfolding Cons.IH by blast
      have "\<forall>j'<Suc j. \<not> fle fp r (partial_sum fp acc (w # ws) j')"
      proof (intro allI impI)
        fix j' assume "j' < Suc j"
        then show "\<not> fle fp r (partial_sum fp acc (w # ws) j')"
          using False j(4) by (cases j') (auto simp: partial_sum_Cons_0 partial_sum_Cons_Suc)
      qed
      then show "\<exists>j. k = i + j \<and> j < length (w # ws) \<and> fle fp r (partial_sum fp acc (w # ws) j) \<and>
         (\<forall>j'<j. \<not> fle fp r (partial_sum fp acc (w # ws) j'))"
        using j by (intro exI[of _ "Suc j"]) (auto simp: partial_sum_Cons_Suc)
    next
      assume "\<exists>j. k = i + j \<and> j < length (w # ws) \<and> fle fp r (partial_sum fp acc (w # ws) j) \<and>
         (\<forall>j'<j. \<not> fle fp r (partial_sum fp acc (w # ws) j'))"
      then obtain j where j: "k = i + j" "j < length (w # ws)"
         "fle fp r (partial_sum fp acc (w # ws) j)"
         "\<forall>j'<j. \<not> fle fp r (partial_sum fp acc (w # ws) j')" by blast
      from j(3) False obtain j0 where j0: "j = Suc j0"
        by (cases j) (auto simp: partial_sum_Cons_0)
      have "\<forall>j'<j0. \<not> fle fp r (partial_sum fp (fadd fp acc w) ws j')"
      proof (intro allI impI)
        fix j' assume "j' < j0"
        then have "Suc j' < j" using j0 by simp
        with j(4) show "\<not> fle fp r (partial_sum fp (fadd fp acc w) ws j')"
          by (auto simp: partial_sum_Cons_Suc)
      qed
      then have "\<exists>j. k = Suc i + j \<and> j < length ws \<and>
          fle fp r (partial_sum fp (fadd fp acc w) ws j) \<and>
          (\<forall>j'<j. \<not> fle fp r (partial_sum fp (fadd fp acc w) ws j'))"
        using j j0 by (intro exI[of _ j0]) (auto simp: partial_sum_Cons_Suc)
      then have "weighted_scan fp r (fadd fp acc w) ws (Suc i) = Some k"
        unfolding Cons.IH .
      then show "weighted_scan fp r acc (w # ws) i = Some k" using False by simp
    qed
  qed
qed

lemma weighted_scan_None:
  "weighted_scan fp r acc ws i = None \<longleftrightarrow>
     (\<forall>j < length ws. \<not> fle fp r (partial_sum fp acc ws j))"
proof (induction ws arbitrary: acc i)
  case Nil
  then show ?case by simp
next
  case (Cons w ws)
  show ?case
  proof (cases "fle fp r (fadd fp acc w)")
    case True
    then have "\<exists>j<length (w # ws). fle fp r (partial_sum fp acc (w # ws) j)"
      by (intro exI[of _ 0]) (simp add: partial_sum_Cons_0)
    then show ?thesis using True by auto
  next
    case False
    have "(\<forall>j<length (w # ws). \<not> fle fp r (partial_sum fp acc (w # ws) j)) \<longleftrightarrow>
          (\<forall>j<length ws. \<not> fle fp r (partial_sum fp (fadd fp acc w) ws j))"
      using False
      by (simp add: All_less_Suc2 partial_sum_Cons_0 partial_sum_Cons_Suc)
    then show ?thesis using False Cons.IH[of "fadd fp acc w" "Suc i"] by simp
  qed
qed

text \<open>
  C3. For a non-empty weight list, in the double arithmetic of any platform. When the
  sum of the weights, added from the left as the code adds them, is at most zero, the
  result is the integer draw over \<open>[0, n - 1]\<close> and lies in that range; in particular
  when every weight is zero (where zero plus zero is zero, and at most zero). Otherwise
  \<open>r\<close> is the library's real draw for the bounds zero and the sum, and the result is the
  smallest index whose cumulative sum is at least \<open>r\<close>, or the last index when no index
  has one.
\<close>

theorem weighted_choice_spec:
  assumes "weights \<noteq> []"
  shows "(fle fp (foldl (fadd fp) (fzero fp) weights) (fzero fp) \<longrightarrow>
            weighted_choice fp weights rg = uniform_int 0 (int (length weights) - 1) rg \<and>
            0 \<le> fst (weighted_choice fp weights rg) \<and>
            fst (weighted_choice fp weights rg) < int (length weights)) \<and>
         (fadd fp (fzero fp) (fzero fp) = fzero fp \<and> fle fp (fzero fp) (fzero fp) \<and>
          (\<forall>w\<in>set weights. w = fzero fp) \<longrightarrow>
            weighted_choice fp weights rg = uniform_int 0 (int (length weights) - 1) rg) \<and>
         (\<not> fle fp (foldl (fadd fp) (fzero fp) weights) (fzero fp) \<longrightarrow>
            (\<exists>r rg' k.
               uniform_double_fp fp (fzero fp) (foldl (fadd fp) (fzero fp) weights) rg = (r, rg') \<and>
               weighted_choice fp weights rg = (int k, rg') \<and> k < length weights \<and>
               (if \<exists>i<length weights. fle fp r (cumulative fp weights i)
                then fle fp r (cumulative fp weights k) \<and>
                     (\<forall>j<k. \<not> fle fp r (cumulative fp weights j))
                else k = length weights - 1)))"
proof (intro conjI impI)
  let ?sum = "foldl (fadd fp) (fzero fp) weights"
  have n: "0 \<le> int (length weights) - 1" using assms by (cases weights) auto
  have range: "0 \<le> fst (uniform_int 0 (int (length weights) - 1) rg) \<and>
               fst (uniform_int 0 (int (length weights) - 1) rg) < int (length weights)"
  proof -
    obtain k rg' where u: "uniform_int 0 (int (length weights) - 1) rg = (k, rg')"
      by (cases "uniform_int 0 (int (length weights) - 1) rg")
    from uniform_int_range[OF n u] show ?thesis using u by simp
  qed
  {
    assume le: "fle fp ?sum (fzero fp)"
    then show eq: "weighted_choice fp weights rg = uniform_int 0 (int (length weights) - 1) rg"
      using assms by (simp add: weighted_choice_def)
    show "0 \<le> fst (weighted_choice fp weights rg)"
      and "fst (weighted_choice fp weights rg) < int (length weights)"
      using range unfolding eq by simp_all
  }
  {
    assume z: "fadd fp (fzero fp) (fzero fp) = fzero fp \<and> fle fp (fzero fp) (fzero fp) \<and>
          (\<forall>w\<in>set weights. w = fzero fp)"
    have "foldl (fadd fp) (fzero fp) ws = fzero fp" if "\<forall>w\<in>set ws. w = fzero fp" for ws
      using that z by (induction ws) auto
    then have "?sum = fzero fp" using z by blast
    then show "weighted_choice fp weights rg = uniform_int 0 (int (length weights) - 1) rg"
      using assms z by (simp add: weighted_choice_def)
  }
  {
    assume pos: "\<not> fle fp ?sum (fzero fp)"
    obtain r rg' where u: "uniform_double_fp fp (fzero fp) ?sum rg = (r, rg')"
      by (cases "uniform_double_fp fp (fzero fp) ?sum rg")
    have wc: "weighted_choice fp weights rg =
        (case weighted_scan fp r (fzero fp) weights 0 of
           Some i \<Rightarrow> (int i, rg') | None \<Rightarrow> (int (length weights - 1), rg'))"
      using assms pos u by (simp add: weighted_choice_def)
    show "\<exists>r rg' k.
               uniform_double_fp fp (fzero fp) ?sum rg = (r, rg') \<and>
               weighted_choice fp weights rg = (int k, rg') \<and> k < length weights \<and>
               (if \<exists>i<length weights. fle fp r (cumulative fp weights i)
                then fle fp r (cumulative fp weights k) \<and>
                     (\<forall>j<k. \<not> fle fp r (cumulative fp weights j))
                else k = length weights - 1)"
    proof (cases "weighted_scan fp r (fzero fp) weights 0")
      case None
      then have "\<not> (\<exists>i<length weights. fle fp r (cumulative fp weights i))"
        by (simp add: weighted_scan_None cumulative_def)
      moreover have "length weights - 1 < length weights" using assms by (cases weights) auto
      ultimately show ?thesis using u wc None by auto
    next
      case (Some k)
      then have "k < length weights" "fle fp r (cumulative fp weights k)"
        "\<forall>j<k. \<not> fle fp r (cumulative fp weights j)"
        unfolding weighted_scan_Some cumulative_def by auto
      then show ?thesis using u wc Some by auto
    qed
  }
qed

theorem weighted_choice_spec_witness:
  "[1, 2, 3] \<noteq> ([]::real list) \<and>
   \<not> fle real_fp (foldl (fadd real_fp) (fzero real_fp) [1, 2, 3]) (fzero real_fp) \<and>
   uniform_double_fp real_fp 0 6 rng0 = (3, rng0\<lparr>used := 1\<rparr>) \<and>
   weighted_choice real_fp [1, 2, 3] rng0 = (1, rng0\<lparr>used := 1\<rparr>) \<and>
   list_all (\<lambda>w. w = fzero real_fp) [0, 0] \<and>
   fle real_fp (foldl (fadd real_fp) (fzero real_fp) [0, 0]) (fzero real_fp) \<and>
   weighted_choice real_fp [0, 0] rng0 = uniform_int 0 1 rng0 \<and>
   \<not> fle nan_fp (foldl (fadd nan_fp) (fzero nan_fp) [Some 1, None]) (fzero nan_fp) \<and>
   \<not> (\<exists>i<2. fle nan_fp None (cumulative nan_fp [Some 1, None] i)) \<and>
   weighted_choice nan_fp [Some 1, None] rng0 = (1, rng0\<lparr>used := 1\<rparr>)"
  using weighted_choice_spec[of "[1, 2, 3]" real_fp rng0]
    weighted_choice_spec[of "[0, 0]" real_fp rng0]
    weighted_choice_spec[of "[Some 1, None]" nan_fp rng0]
  by (simp add: weighted_choice_def uniform_double_fp_def next_raw_def canonical_def rng0_def
      real_fp_def nan_fp_def)

section \<open>Mode A: the invariants of a run\<close>


lemma set_us_insert [simp]: "set (us_insert x xs) = insert x (set xs)"
  by (auto simp: us_insert_def)

lemma set_us_erase [simp]: "set (us_erase x xs) = set xs - {x}"
  by (auto simp: us_erase_def)

lemma set_eraseKnownParents:
  "set (eraseKnownParents known ps tips) = set tips - (set ps \<inter> set known)"
  by (induction ps arbitrary: tips) auto

lemma hasKnownChild_iff: "hasKnownChild known cs \<longleftrightarrow> (\<exists>c\<in>set cs. c \<in> set known)"
  by (induction cs) auto

lemma processReceiveNode_known:
  "set (knownNodes (processReceiveNode g proc nid)) = insert nid (set (knownNodes proc))"
  by (auto simp: processReceiveNode_def Let_def)

lemma processReceiveNode_id [simp]:
  "proc_id (processReceiveNode g proc nid) = proc_id proc"
  by (simp add: processReceiveNode_def Let_def)

lemma processReceiveNode_tips:
  assumes "nid \<notin> set (knownNodes proc)"
  shows "set (tipSet (processReceiveNode g proc nid)) =
           (set (tipSet proc) - (set (parents (g ! nat nid)) \<inter> insert nid (set (knownNodes proc))))
           \<union> (if \<exists>c\<in>set (children (g ! nat nid)). c \<in> insert nid (set (knownNodes proc))
               then {} else {nid})"
  using assms by (auto simp: processReceiveNode_def Let_def set_eraseKnownParents hasKnownChild_iff)

lemma graph_ok_child:
  assumes "graph_ok g" "i < length g" "c \<in> set (children (g ! i))"
  shows "int i < c" "nat c < length g" "int i \<in> set (parents (g ! nat c))"
proof -
  from assms have c: "0 \<le> c" "nat c < length g" "int i \<in> set (parents (g ! nat c))"
    unfolding graph_ok_def by blast+
  then show "nat c < length g" "int i \<in> set (parents (g ! nat c))" by auto
  from assms(1) c have "int i < int (nat c)" unfolding graph_ok_def by blast
  then show "int i < c" using c(1) by simp
qed

lemma graph_ok_childI:
  assumes "graph_ok g" "i < length g" "0 \<le> c" "nat c < length g" "int i \<in> set (parents (g ! nat c))"
  shows "c \<in> set (children (g ! i))"
  using assms unfolding graph_ok_def by blast

lemma graph_ok_parent:
  assumes "graph_ok g" "i < length g" "p \<in> set (parents (g ! i))"
  shows "0 \<le> p" "p < int i"
  using assms unfolding graph_ok_def by blast+

lemma view_ok_receive:
  assumes g: "graph_ok g" and v: "view_ok g proc" and r: "0 \<le> nid" "nid < int (length g)"
  shows "view_ok g (processReceiveNode g proc nid)"
proof (cases "nid \<in> set (knownNodes proc)")
  case True
  then show ?thesis using v by (simp add: processReceiveNode_def)
next
  case False
  let ?K = "set (knownNodes proc)"
  let ?p' = "processReceiveNode g proc nid"
  have K': "set (knownNodes ?p') = insert nid ?K" by (rule processReceiveNode_known)
  have T': "set (tipSet ?p') =
           (set (tipSet proc) - (set (parents (g ! nat nid)) \<inter> insert nid ?K))
           \<union> (if \<exists>c\<in>set (children (g ! nat nid)). c \<in> insert nid ?K then {} else {nid})"
    by (rule processReceiveNode_tips[OF False])
  have nidlt: "nat nid < length g" using r by simp
  have tips_known: "set (tipSet proc) \<subseteq> ?K" using v unfolding view_ok_def by blast
  have range: "\<And>n. n \<in> ?K \<Longrightarrow> 0 \<le> n \<and> nat n < length g"
    using v unfolding view_ok_def by auto
  have notself_p: "nid \<notin> set (parents (g ! nat nid))"
    using graph_ok_parent[OF g nidlt, of nid] r by auto
  have notself_c: "nid \<notin> set (children (g ! nat nid))"
    using graph_ok_child(1)[OF g nidlt, of nid] r by auto
  have "n \<in> set (tipSet ?p') \<longleftrightarrow>
          n \<in> insert nid ?K \<and> (\<forall>c\<in>set (children (g ! nat n)). c \<notin> insert nid ?K)" for n
  proof (cases "n = nid")
    case True
    have "nid \<notin> set (tipSet proc)" using tips_known False by blast
    then show ?thesis using True T' by auto
  next
    case ne: False
    show ?thesis
    proof (cases "n \<in> ?K")
      case nK: True
      then have nr: "0 \<le> n" "nat n < length g" using range by auto
      have pc: "nid \<in> set (children (g ! nat n)) \<longleftrightarrow> n \<in> set (parents (g ! nat nid))"
        using graph_ok_child(3)[OF g nr(2), of nid] graph_ok_childI[OF g nr(2) r(1) nidlt] nr(1)
        by auto
      have old: "n \<in> set (tipSet proc) \<longleftrightarrow> (\<forall>c\<in>set (children (g ! nat n)). c \<notin> ?K)"
        using v nK unfolding view_ok_def by blast
      show ?thesis using ne nK T' pc old by auto
    next
      case nK: False
      then have "n \<notin> set (tipSet proc)" using tips_known by blast
      then show ?thesis using ne nK T' by auto
    qed
  qed
  moreover have "0 \<in> insert nid ?K" using v unfolding view_ok_def by simp
  moreover have "\<forall>n\<in>insert nid ?K. 0 \<le> n \<and> n < int (length g)"
    using v r unfolding view_ok_def by auto
  ultimately show ?thesis unfolding view_ok_def K' by blast
qed


lemma weighted_choice_range:
  assumes "ws \<noteq> []" "weighted_choice fp ws rg = (idx, rg')"
  shows "0 \<le> idx \<and> idx < int (length ws)"
proof (cases "fle fp (foldl (fadd fp) (fzero fp) ws) (fzero fp)")
  case True
  then have u: "uniform_int 0 (int (length ws) - 1) rg = (idx, rg')"
    using assms by (simp add: weighted_choice_def)
  have "0 \<le> int (length ws) - 1" using assms(1) by (cases ws) auto
  from uniform_int_range[OF this u] show ?thesis by simp
next
  case False
  obtain r rg1 where u: "uniform_double_fp fp (fzero fp) (foldl (fadd fp) (fzero fp) ws) rg = (r, rg1)"
    by (cases "uniform_double_fp fp (fzero fp) (foldl (fadd fp) (fzero fp) ws) rg")
  have wc: "(idx, rg') = (case weighted_scan fp r (fzero fp) ws 0 of
               Some i \<Rightarrow> (int i, rg1) | None \<Rightarrow> (int (length ws - 1), rg1))"
    using assms False u by (simp add: weighted_choice_def)
  show ?thesis
  proof (cases "weighted_scan fp r (fzero fp) ws 0")
    case None
    then have "idx = int (length ws - 1)" using wc by simp
    then show ?thesis using assms(1) by (cases ws) auto
  next
    case (Some k)
    then have "idx = int k" using wc by simp
    moreover have "k < length ws" using Some unfolding weighted_scan_Some by auto
    ultimately show ?thesis by simp
  qed
qed

lemma walk_steps_leaf:
  "filter (\<lambda>c. c \<in> set (knownNodes proc)) (children (g ! nat current)) = [] \<Longrightarrow>
   biasedRandomWalk_steps (Suc n) g proc alpha current rg = Some (current, rg)"
  by simp

lemma walk_steps_move:
  assumes "kc = filter (\<lambda>c. c \<in> set (knownNodes proc)) (children (g ! nat current))"
    and "kc \<noteq> []"
    and "weighted_choice real_fp (map (\<lambda>childId. exp (alpha * real_of_int (height (g ! nat childId)))) kc) rg
           = (idx, rg1)"
    and "0 \<le> idx"
  shows "biasedRandomWalk_steps (Suc n) g proc alpha current rg =
           biasedRandomWalk_steps n g proc alpha (kc ! nat idx) rg1"
  using assms by (simp add: Let_def)

lemma walk_steps_returns:
  assumes g: "graph_ok g"
  shows "0 \<le> current \<Longrightarrow> nat current < length g \<Longrightarrow> length g - nat current \<le> n \<Longrightarrow>
         \<exists>c rg'. biasedRandomWalk_steps n g proc alpha current rg = Some (c, rg') \<and>
                 (c = current \<or> c \<in> set (knownNodes proc)) \<and> 0 \<le> c \<and> nat c < length g"
proof (induction n arbitrary: current rg)
  case 0
  then show ?case by simp
next
  case (Suc n)
  define kc where "kc = filter (\<lambda>c. c \<in> set (knownNodes proc)) (children (g ! nat current))"
  define ws where "ws = map (\<lambda>childId. exp (alpha * real_of_int (height (g ! nat childId)))) kc"
  show ?case
  proof (cases "kc = []")
    case True
    then have "biasedRandomWalk_steps (Suc n) g proc alpha current rg = Some (current, rg)"
      unfolding kc_def by (rule walk_steps_leaf)
    then show ?thesis using Suc.prems(1,2) by blast
  next
    case False
    obtain idx rg1 where wc: "weighted_choice real_fp ws rg = (idx, rg1)"
      by (cases "weighted_choice real_fp ws rg")
    have "ws \<noteq> []" using False by (simp add: ws_def)
    from weighted_choice_range[OF this wc] have idx: "0 \<le> idx" "nat idx < length kc"
      by (auto simp: ws_def)
    define nx where "nx = kc ! nat idx"
    have "nx \<in> set kc" unfolding nx_def using idx(2) by (rule nth_mem)
    then have nk: "nx \<in> set (knownNodes proc)" and nc: "nx \<in> set (children (g ! nat current))"
      by (auto simp: kc_def)
    from graph_ok_child[OF g Suc.prems(2) nc] Suc.prems(1)
    have lt: "current < nx" "nat nx < length g" by auto
    have "nat current < nat nx" using lt(1) Suc.prems(1) by simp
    then have "0 \<le> nx" "length g - nat nx \<le> n" using lt(1) Suc.prems by linarith+
    from Suc.IH[OF this(1) lt(2) this(2), of rg1]
    obtain c rg' where st: "biasedRandomWalk_steps n g proc alpha nx rg1 = Some (c, rg')"
      and c: "c = nx \<or> c \<in> set (knownNodes proc)" "0 \<le> c" "nat c < length g" by blast
    have "biasedRandomWalk_steps (Suc n) g proc alpha current rg =
            biasedRandomWalk_steps n g proc alpha nx rg1"
      unfolding nx_def using kc_def False wc[unfolded ws_def] idx(1) by (rule walk_steps_move)
    then show ?thesis using st c nk by auto
  qed
qed

lemma walk_steps_loop:
  "biasedRandomWalk_steps n g proc alpha current rg = Some r \<Longrightarrow>
   biasedRandomWalk_loop g proc alpha current rg = Some r"
proof (induction n arbitrary: current rg)
  case 0
  then show ?case by simp
next
  case (Suc n)
  let ?kc = "filter (\<lambda>c. c \<in> set (knownNodes proc)) (children (g ! nat current))"
  let ?ws = "map (\<lambda>childId. exp (alpha * real_of_int (height (g ! nat childId)))) ?kc"
  show ?case
  proof (cases "?kc = []")
    case True
    then have "r = (current, rg)" using Suc.prems by simp
    then show ?thesis using True by (subst biasedRandomWalk_loop.simps) simp
  next
    case False
    obtain idx rg1 where wc: "weighted_choice real_fp ?ws rg = (idx, rg1)"
      by (cases "weighted_choice real_fp ?ws rg")
    show ?thesis
    proof (cases "idx < 0")
      case True
      then have "r = (?kc ! 0, rg1)" using Suc.prems False wc by (simp add: Let_def)
      then show ?thesis using False wc True
        by (subst biasedRandomWalk_loop.simps) (simp add: Let_def)
    next
      case ge: False
      then have "biasedRandomWalk_steps n g proc alpha (?kc ! nat idx) rg1 = Some r"
        using Suc.prems False wc by (simp add: Let_def)
      then have "biasedRandomWalk_loop g proc alpha (?kc ! nat idx) rg1 = Some r"
        by (rule Suc.IH)
      then show ?thesis using False wc ge
        by (subst biasedRandomWalk_loop.simps) (simp add: Let_def)
    qed
  qed
qed

lemma biasedRandomWalk_returns:
  assumes "graph_ok g" "view_ok g proc"
  shows "\<exists>c rg'. biasedRandomWalk g proc rg alpha = Some (c, rg') \<and> c \<in> set (knownNodes proc)"
proof -
  have "g \<noteq> []" using assms(1) by (simp add: graph_ok_def)
  then have "nat 0 < length g" "length g - nat 0 \<le> length g" by auto
  from walk_steps_returns[OF assms(1) _ this, of proc alpha rg]
  obtain c rg' where w: "biasedRandomWalk_steps (length g) g proc alpha 0 rg = Some (c, rg')"
    "c = 0 \<or> c \<in> set (knownNodes proc)" by auto
  have "c \<in> set (knownNodes proc)" using w(2) assms(2) by (auto simp: view_ok_def)
  then show ?thesis using walk_steps_loop[OF w(1)] by (auto simp: biasedRandomWalk_def)
qed

lemma view_ok_tips_nonempty:
  assumes g: "graph_ok g" and v: "view_ok g proc"
  shows "Max (set (knownNodes proc)) \<in> set (tipSet proc)"
proof -
  let ?K = "set (knownNodes proc)"
  have ne: "?K \<noteq> {}" using v by (auto simp: view_ok_def)
  have mK: "Max ?K \<in> ?K" using ne by (intro Max_in) auto
  have "\<forall>n\<in>?K. 0 \<le> n \<and> n < int (length g)" using v unfolding view_ok_def by blast
  with mK have "0 \<le> Max ?K \<and> Max ?K < int (length g)" by blast
  then have mr: "0 \<le> Max ?K" "nat (Max ?K) < length g" by auto
  have "c \<notin> ?K" if "c \<in> set (children (g ! nat (Max ?K)))" for c
  proof
    assume "c \<in> ?K"
    then have "c \<le> Max ?K" by simp
    moreover have "Max ?K < c" using graph_ok_child(1)[OF g mr(2) that] mr(1) by simp
    ultimately show False by simp
  qed
  then show ?thesis using v mK unfolding view_ok_def by blast
qed

lemma uniformRandomTip_known:
  assumes g: "graph_ok g" and v: "view_ok g proc" and u: "uniformRandomTip proc rg = (t, rg')"
  shows "t \<in> set (tipSet proc)"
proof -
  have ne: "tipSet proc \<noteq> []" using view_ok_tips_nonempty[OF g v] by auto
  obtain k rg1 where k: "uniform_int 0 (int (length (tipSet proc)) - 1) rg = (k, rg1)"
    by (cases "uniform_int 0 (int (length (tipSet proc)) - 1) rg")
  have "0 \<le> int (length (tipSet proc)) - 1" using ne by (cases "tipSet proc") auto
  from uniform_int_range[OF this k] have "nat k < length (tipSet proc)" by auto
  then have "tipSet proc ! nat k \<in> set (tipSet proc)" by (rule nth_mem)
  then show ?thesis using u ne k by (simp add: uniformRandomTip_def Let_def)
qed

lemma selectTip_returns:
  assumes g: "graph_ok g" and v: "view_ok g proc"
  shows "\<exists>t rg'. selectTip g proc rg md sb al = Some (t, rg') \<and> t \<in> set (knownNodes proc)"
proof -
  have tk: "set (tipSet proc) \<subseteq> set (knownNodes proc)" using v unfolding view_ok_def by blast
  have U: "\<exists>t rg'. Some (uniformRandomTip proc r) = Some (t, rg') \<and> t \<in> set (knownNodes proc)" for r
    using uniformRandomTip_known[OF g v, of r] tk by (cases "uniformRandomTip proc r") auto
  show ?thesis
  proof (cases md)
    case RANDOM_ONLY
    then show ?thesis using U by (simp add: selectTip_def)
  next
    case MCMC_ONLY
    then show ?thesis using biasedRandomWalk_returns[OF g v] by (simp add: selectTip_def)
  next
    case HYBRID
    obtain r rg1 where "uniform_double 0 1 rg = (r, rg1)" by (cases "uniform_double 0 1 rg")
    then show ?thesis using HYBRID U[of rg1] biasedRandomWalk_returns[OF g v, of rg1 al]
      by (simp add: selectTip_def)
  qed
qed

lemma selectTips_loop_returns:
  assumes g: "graph_ok g" and v: "view_ok g proc"
  shows "set acc \<subseteq> set (knownNodes proc) \<Longrightarrow>
         \<exists>tips rg'. selectTips_loop g proc md sb al n acc rg = Some (tips, rg') \<and>
                    set tips \<subseteq> set (knownNodes proc) \<and> length tips = length acc + n"
proof (induction n arbitrary: acc rg)
  case 0
  then show ?case by simp
next
  case (Suc n)
  from selectTip_returns[OF g v, of rg md sb al]
  obtain t rg1 where t: "selectTip g proc rg md sb al = Some (t, rg1)" "t \<in> set (knownNodes proc)"
    by blast
  have "set (acc @ [t]) \<subseteq> set (knownNodes proc)" using Suc.prems t(2) by simp
  from Suc.IH[OF this, of rg1] show ?case using t(1) by auto
qed

lemma selectTips_returns:
  assumes g: "graph_ok g" and v: "view_ok g proc"
  shows "\<exists>tips rg'. selectTips g proc rg md sb al k = Some (tips, rg') \<and>
                    set tips \<subseteq> set (knownNodes proc) \<and> length tips = nat k"
  using selectTips_loop_returns[OF g v, of "[]" md sb al "nat k" rg]
  by (simp add: selectTips_def)


lemma linkParents_length:
  "linkParents newId ps (g, gt) = (g', gt') \<Longrightarrow> length g' = length g"
  by (induction ps arbitrary: g gt) auto

lemma linkParents_parents:
  "linkParents newId ps (g, gt) = (g', gt') \<Longrightarrow> i < length g \<Longrightarrow>
   parents (g' ! i) = parents (g ! i) \<and> tx_id (g' ! i) = tx_id (g ! i)"
proof (induction ps arbitrary: g gt)
  case Nil
  then show ?case by simp
next
  case (Cons p ps)
  let ?g1 = "g[nat p := (g ! nat p)\<lparr>children := children (g ! nat p) @ [newId]\<rparr>]"
  have "linkParents newId ps (?g1, us_erase p gt) = (g', gt')" using Cons.prems(1) by simp
  from Cons.IH[OF this] Cons.prems(2)
  have "parents (g' ! i) = parents (?g1 ! i) \<and> tx_id (g' ! i) = tx_id (?g1 ! i)" by simp
  moreover have "parents (?g1 ! i) = parents (g ! i) \<and> tx_id (?g1 ! i) = tx_id (g ! i)"
    using Cons.prems(2) by (cases "i = nat p") auto
  ultimately show ?case by simp
qed

lemma linkParents_children:
  "linkParents newId ps (g, gt) = (g', gt') \<Longrightarrow> \<forall>p\<in>set ps. 0 \<le> p \<and> nat p < length g \<Longrightarrow>
   i < length g \<Longrightarrow>
   set (children (g' ! i)) = set (children (g ! i)) \<union> (if int i \<in> set ps then {newId} else {})"
proof (induction ps arbitrary: g gt)
  case Nil
  then show ?case by simp
next
  case (Cons p ps)
  let ?g1 = "g[nat p := (g ! nat p)\<lparr>children := children (g ! nat p) @ [newId]\<rparr>]"
  have l: "linkParents newId ps (?g1, us_erase p gt) = (g', gt')" using Cons.prems(1) by simp
  have r: "\<forall>q\<in>set ps. 0 \<le> q \<and> nat q < length ?g1" using Cons.prems(2) by simp
  have i: "i < length ?g1" using Cons.prems(3) by simp
  have "set (children (g' ! i)) = set (children (?g1 ! i)) \<union> (if int i \<in> set ps then {newId} else {})"
    by (rule Cons.IH[OF l r i])
  moreover have "set (children (?g1 ! i)) = set (children (g ! i)) \<union> (if int i = p then {newId} else {})"
  proof (cases "i = nat p")
    case True
    then have "int i = p" using Cons.prems(2) by simp
    then show ?thesis using True Cons.prems(3) by simp
  next
    case False
    then have "int i \<noteq> p" by auto
    then show ?thesis using False by simp
  qed
  ultimately show ?case by auto
qed

lemma graph_ok_extend:
  assumes g: "graph_ok g"
    and tips: "\<forall>p\<in>set tips. 0 \<le> p \<and> nat p < length g"
    and l: "linkParents (int (length g)) tips
              (g @ [\<lparr>tx_id = int (length g), timestamp = tm, height = h, parents = tips, children = []\<rparr>], gt)
            = (g', gt')"
  shows "graph_ok g'"
    and "length g' = Suc (length g)"
    and "\<forall>i<length g. set (children (g' ! i)) \<subseteq> insert (int (length g)) (set (children (g ! i)))
                     \<and> set (children (g ! i)) \<subseteq> set (children (g' ! i))"
    and "children (g' ! length g) = [] \<or> set (children (g' ! length g)) = {}"
    and "parents (g' ! length g) = tips"
proof -
  let ?n = "length g"
  let ?node = "\<lparr>tx_id = int ?n, timestamp = tm, height = h, parents = tips, children = []\<rparr>"
  let ?g1 = "g @ [?node]"
  have len: "length g' = Suc ?n" using linkParents_length[OF l] by simp
  have tips1: "\<forall>p\<in>set tips. 0 \<le> p \<and> nat p < length ?g1" using tips by auto
  have par: "parents (g' ! i) = parents (?g1 ! i)" "tx_id (g' ! i) = tx_id (?g1 ! i)"
    if "i < Suc ?n" for i
    using linkParents_parents[OF l, of i] that by auto
  have chi: "set (children (g' ! i)) = set (children (?g1 ! i)) \<union> (if int i \<in> set tips then {int ?n} else {})"
    if "i < Suc ?n" for i
    using linkParents_children[OF l tips1, of i] that by simp
  have notin: "int ?n \<notin> set tips" using tips by auto
  have par_old: "parents (g' ! i) = parents (g ! i)" "tx_id (g' ! i) = tx_id (g ! i)" if "i < ?n" for i
    using par[of i] that by (auto simp: nth_append)
  have par_new: "parents (g' ! ?n) = tips" "tx_id (g' ! ?n) = int ?n"
    using par[of ?n] by auto
  have chi_old: "set (children (g' ! i)) = set (children (g ! i)) \<union> (if int i \<in> set tips then {int ?n} else {})"
    if "i < ?n" for i
    using chi[of i] that by (auto simp: nth_append)
  have chi_new: "set (children (g' ! ?n)) = {}"
    using chi[of ?n] notin by simp
  show "length g' = Suc ?n" by (rule len)
  show "parents (g' ! ?n) = tips" by (rule par_new)
  show "children (g' ! ?n) = [] \<or> set (children (g' ! ?n)) = {}" using chi_new by simp
  show "\<forall>i<?n. set (children (g' ! i)) \<subseteq> insert (int ?n) (set (children (g ! i)))
                     \<and> set (children (g ! i)) \<subseteq> set (children (g' ! i))"
    using chi_old by auto
  have P: "\<forall>p\<in>set (parents (g' ! i)). 0 \<le> p \<and> p < int i" if "i < Suc ?n" for i
  proof (cases "i < ?n")
    case True
    then show ?thesis using g par_old[OF True] unfolding graph_ok_def by auto
  next
    case False
    then have "i = ?n" using that by simp
    then show ?thesis using par_new tips by auto
  qed
  have C: "c \<in> set (children (g' ! i)) \<longleftrightarrow>
             0 \<le> c \<and> nat c < length g' \<and> int i \<in> set (parents (g' ! nat c))"
    if i: "i < Suc ?n" for i c
  proof (cases "i < ?n")
    case True
    have old: "c \<in> set (children (g ! i)) \<longleftrightarrow>
                 0 \<le> c \<and> nat c < ?n \<and> int i \<in> set (parents (g ! nat c))"
      using g True unfolding graph_ok_def by blast
    show ?thesis
    proof (cases "0 \<le> c \<and> nat c < ?n")
      case c: True
      then have "c \<noteq> int ?n" by auto
      then show ?thesis using chi_old[OF True] old c par_old(1)[of "nat c"] len by auto
    next
      case c: False
      show ?thesis
      proof (cases "c = int ?n")
        case True
        then show ?thesis using chi_old[OF \<open>i < ?n\<close>] old c par_new(1) len by auto
      next
        case False
        then have "\<not> (0 \<le> c \<and> nat c < length g')" using c len by auto
        then show ?thesis using chi_old[OF \<open>i < ?n\<close>] old c False by auto
      qed
    qed
  next
    case False
    then have eq: "i = ?n" using i by simp
    have "int ?n \<notin> set (parents (g' ! nat c))" if "0 \<le> c" "nat c < length g'"
    proof -
      have "nat c < Suc ?n" using that len by simp
      from P[OF this] have "\<forall>p\<in>set (parents (g' ! nat c)). p < c" using that(1) by auto
      moreover have "c \<le> int ?n" using that len by auto
      ultimately show ?thesis by auto
    qed
    then show ?thesis using eq chi_new by auto
  qed
  have T: "tx_id (g' ! i) = int i" if "i < Suc ?n" for i
  proof (cases "i < ?n")
    case True
    then show ?thesis using g par_old(2)[OF True] unfolding graph_ok_def by auto
  next
    case False
    then have "i = ?n" using that by simp
    then show ?thesis using par_new by simp
  qed
  have "g' \<noteq> []" using len by auto
  then show "graph_ok g'" unfolding graph_ok_def len using T P C len by auto
qed


lemma view_ok_extend:
  assumes v: "view_ok g p"
    and len: "length g' = Suc (length g)"
    and ch: "\<forall>i<length g. set (children (g' ! i)) \<subseteq> insert (int (length g)) (set (children (g ! i)))
                     \<and> set (children (g ! i)) \<subseteq> set (children (g' ! i))"
  shows "view_ok g' p"
proof -
  let ?K = "set (knownNodes p)"
  have range: "\<forall>n\<in>?K. 0 \<le> n \<and> n < int (length g)" using v unfolding view_ok_def by blast
  then have new: "int (length g) \<notin> ?K" by auto
  have "(\<forall>c\<in>set (children (g' ! nat n)). c \<notin> ?K) \<longleftrightarrow> (\<forall>c\<in>set (children (g ! nat n)). c \<notin> ?K)"
    if "n \<in> ?K" for n
  proof -
    have "nat n < length g" using range that by auto
    with ch have "set (children (g' ! nat n)) \<subseteq> insert (int (length g)) (set (children (g ! nat n)))"
      "set (children (g ! nat n)) \<subseteq> set (children (g' ! nat n))" by auto
    then show ?thesis using new by blast
  qed
  then have "\<forall>n. n \<in> set (tipSet p) \<longleftrightarrow> n \<in> ?K \<and> (\<forall>c\<in>set (children (g' ! nat n)). c \<notin> ?K)"
    using v unfolding view_ok_def by blast
  moreover have "\<forall>n\<in>?K. 0 \<le> n \<and> n < int (length g')" using range len by auto
  moreover have "0 \<in> ?K" using v unfolding view_ok_def by blast
  ultimately show ?thesis unfolding view_ok_def by blast
qed

lemma broadcastNode_queue:
  "broadcastNode dbl nid sender ps q rg t mn mx sent = (q', rg', sent') \<Longrightarrow>
   \<exists>ms. q' = q @ ms \<and> sent' = sent + int (length ms) \<and>
        map receiverId ms = map proc_id (filter (\<lambda>p. proc_id p \<noteq> sender) ps) \<and>
        (\<forall>m\<in>set ms. nodeId m = nid \<and>
           (\<exists>r. deliverTime m = dadd dbl t (fst (uniform_double mn mx r))))"
proof (induction ps arbitrary: q rg sent)
  case Nil
  then show ?case by simp
next
  case (Cons p ps)
  show ?case
  proof (cases "proc_id p = sender")
    case True
    then have "broadcastNode dbl nid sender ps q rg t mn mx sent = (q', rg', sent')"
      using Cons.prems by simp
    from Cons.IH[OF this] show ?thesis using True by simp
  next
    case False
    obtain delay rg1 where u: "uniform_double mn mx rg = (delay, rg1)"
      by (cases "uniform_double mn mx rg")
    let ?m = "\<lparr>deliverTime = dadd dbl t delay, receiverId = proc_id p, nodeId = nid\<rparr>"
    have "broadcastNode dbl nid sender ps (pq_push ?m q) rg1 t mn mx (sent + 1) = (q', rg', sent')"
      using Cons.prems False u by simp
    from Cons.IH[OF this]
    obtain ms where ms: "q' = pq_push ?m q @ ms" "sent' = sent + 1 + int (length ms)"
      "map receiverId ms = map proc_id (filter (\<lambda>p. proc_id p \<noteq> sender) ps)"
      "\<forall>m\<in>set ms. nodeId m = nid \<and> (\<exists>r. deliverTime m = dadd dbl t (fst (uniform_double mn mx r)))"
      by blast
    have "deliverTime ?m = dadd dbl t (fst (uniform_double mn mx rg))" using u by simp
    then have "\<forall>m\<in>set (?m # ms). nodeId m = nid \<and> (\<exists>r. deliverTime m = dadd dbl t (fst (uniform_double mn mx r)))"
      using ms(4) by auto
    moreover have "q' = q @ (?m # ms)" using ms(1) by (simp add: pq_push_def)
    moreover have "sent' = sent + int (length (?m # ms))" using ms(2) by simp
    moreover have "map receiverId (?m # ms) = map proc_id (filter (\<lambda>p. proc_id p \<noteq> sender) (p # ps))"
      using ms(3) False by simp
    ultimately show ?thesis by blast
  qed
qed

lemma createTransaction_cases:
  assumes inv: "tangle_inv s" and i: "i < length (procs s)"
  obtains (idle) rg1 where "createTransaction dbl cfg t i s = Some (s\<lparr>rng := rg1\<rparr>)"
  | (emit) tips g' gt pr' ms rg3 h where
      "createTransaction dbl cfg t i s =
         Some (s\<lparr>g_nodes := g', g_globalTips := us_insert (int (length (g_nodes s))) gt,
                 g_messagesSent := g_messagesSent s + int (length ms),
                 procs := (procs s)[i := pr'], pq := pq s @ ms, rng := rg3\<rparr>)"
      "set tips \<subseteq> set (knownNodes (procs s ! i))" "length tips = 2"
      "linkParents (int (length (g_nodes s))) tips
         (g_nodes s @ [\<lparr>tx_id = int (length (g_nodes s)), timestamp = t, height = h,
                        parents = tips, children = []\<rparr>], g_globalTips s) = (g', gt)"
      "pr' = processReceiveNode g' (procs s ! i) (int (length (g_nodes s)))"
      "map receiverId ms = map proc_id (filter (\<lambda>p. proc_id p \<noteq> proc_id pr') ((procs s)[i := pr']))"
      "\<forall>m\<in>set ms. nodeId m = int (length (g_nodes s)) \<and>
           (\<exists>r. deliverTime m = dadd dbl t (fst (uniform_double (minDelay cfg) (maxDelay cfg) r)))"
proof -
  obtain r rg1 where u: "uniform_double 0 1 (rng s) = (r, rg1)"
    by (cases "uniform_double 0 1 (rng s)")
  show ?thesis
  proof (cases "r < txProb cfg")
    case False
    then have "createTransaction dbl cfg t i s = Some (s\<lparr>rng := rg1\<rparr>)"
      using u by (simp add: createTransaction_def)
    then show ?thesis by (rule idle)
  next
    case True
    let ?pr = "procs s ! i"
    let ?n = "int (length (g_nodes s))"
    have g: "graph_ok (g_nodes s)" using inv by (simp add: tangle_inv_def)
    have v: "view_ok (g_nodes s) ?pr" using inv i by (simp add: tangle_inv_def)
    from selectTips_returns[OF g v, of rg1 "mode cfg" "securityBias cfg" "alphaHigh cfg" 2]
    obtain tips rg2 where
      st: "selectTips (g_nodes s) ?pr rg1 (mode cfg) (securityBias cfg) (alphaHigh cfg) 2 = Some (tips, rg2)"
      and tk: "set tips \<subseteq> set (knownNodes ?pr)" and tl: "length tips = 2" by auto
    define h where "h = maxParentHeight (g_nodes s) tips 0 + 1"
    let ?node = "\<lparr>tx_id = ?n, timestamp = t, height = h, parents = tips, children = []\<rparr>"
    obtain g' gt where lp: "linkParents ?n tips (g_nodes s @ [?node], g_globalTips s) = (g', gt)"
      by (cases "linkParents ?n tips (g_nodes s @ [?node], g_globalTips s)")
    define pr' where "pr' = processReceiveNode g' ?pr ?n"
    obtain q' rg3 sent where
      bc: "broadcastNode dbl ?n (proc_id pr') ((procs s)[i := pr']) (pq s) rg2 t
             (minDelay cfg) (maxDelay cfg) (g_messagesSent s) = (q', rg3, sent)"
      by (cases "broadcastNode dbl ?n (proc_id pr') ((procs s)[i := pr']) (pq s) rg2 t
             (minDelay cfg) (maxDelay cfg) (g_messagesSent s)") auto
    from broadcastNode_queue[OF bc]
    obtain ms where ms: "q' = pq s @ ms" "sent = g_messagesSent s + int (length ms)"
      "map receiverId ms = map proc_id (filter (\<lambda>p. proc_id p \<noteq> proc_id pr') ((procs s)[i := pr']))"
      "\<forall>m\<in>set ms. nodeId m = ?n \<and>
           (\<exists>r. deliverTime m = dadd dbl t (fst (uniform_double (minDelay cfg) (maxDelay cfg) r)))"
      by blast
    have eq: "createTransaction dbl cfg t i s =
         Some (s\<lparr>g_nodes := g', g_globalTips := us_insert ?n gt,
                 g_messagesSent := g_messagesSent s + int (length ms),
                 procs := (procs s)[i := pr'], pq := pq s @ ms, rng := rg3\<rparr>)"
      using u True st lp bc ms(1,2)
      by (simp add: createTransaction_def Let_def h_def pr'_def)
    show ?thesis by (rule emit[OF eq tk tl lp pr'_def ms(3) ms(4)])
  qed
qed


lemma pq_top_mem: "pq_top ms = Some m \<Longrightarrow> m \<in> set ms"
  by (induction ms arbitrary: m) (auto split: option.splits if_splits)

lemma view_ok_known_range:
  assumes "view_ok g p" "n \<in> set (knownNodes p)"
  shows "0 \<le> n" "nat n < length g"
proof -
  from assms have "0 \<le> n \<and> n < int (length g)" unfolding view_ok_def by blast
  then show "0 \<le> n" "nat n < length g" by auto
qed

lemma createTransaction_inv:
  assumes inv: "tangle_inv s" and i: "i < length (procs s)"
  shows "\<exists>s'. createTransaction dbl cfg t i s = Some s' \<and> tangle_inv s' \<and>
              length (procs s') = length (procs s) \<and> out s' = out s \<and>
              (\<exists>ms. pq s' = pq s @ ms \<and> g_messagesSent s' = g_messagesSent s + int (length ms))"
proof (rule createTransaction_cases[OF inv i, of dbl cfg t], goal_cases idle emit)
  case (idle rg1)
  have "tangle_inv (s\<lparr>rng := rg1\<rparr>)" using inv by (simp add: tangle_inv_def)
  then show ?case using idle by simp
next
  case (emit tips g' gt pr' ms rg3 h)
  let ?n = "length (g_nodes s)"
  let ?pr = "procs s ! i"
  let ?s' = "s\<lparr>g_nodes := g', g_globalTips := us_insert (int ?n) gt,
                 g_messagesSent := g_messagesSent s + int (length ms),
                 procs := (procs s)[i := pr'], pq := pq s @ ms, rng := rg3\<rparr>"
  have g: "graph_ok (g_nodes s)" using inv by (simp add: tangle_inv_def)
  have vs: "\<forall>p\<in>set (procs s). view_ok (g_nodes s) p" using inv by (simp add: tangle_inv_def)
  have ids: "\<forall>j<length (procs s). proc_id (procs s ! j) = int j" using inv by (simp add: tangle_inv_def)
  have qs: "\<forall>m\<in>set (pq s). 0 \<le> receiverId m \<and> nat (receiverId m) < length (procs s)"
    using inv by (simp add: tangle_inv_def)
  have v: "view_ok (g_nodes s) ?pr" using vs i by simp
  have tr: "\<forall>p\<in>set tips. 0 \<le> p \<and> nat p < ?n"
    using emit(2) view_ok_known_range[OF v] by blast
  note ext = graph_ok_extend[OF g tr emit(4)]
  have g': "graph_ok g'" by (rule ext(1))
  have ve: "view_ok g' p" if "view_ok (g_nodes s) p" for p
    using that ext(2) ext(3) by (rule view_ok_extend)
  have "view_ok g' pr'" unfolding emit(5)
    using g' ve[OF v] ext(2) by (intro view_ok_receive) auto
  then have vs': "\<forall>p\<in>set ((procs s)[i := pr']). view_ok g' p"
    using vs ve by (auto dest!: set_update_subset_insert[THEN subsetD])
  have pid: "proc_id pr' = int i" unfolding emit(5) using ids i by simp
  have ids': "\<forall>j<length ((procs s)[i := pr']). proc_id ((procs s)[i := pr'] ! j) = int j"
  proof (intro allI impI)
    fix j assume "j < length ((procs s)[i := pr'])"
    then have j: "j < length (procs s)" by simp
    show "proc_id ((procs s)[i := pr'] ! j) = int j"
    proof (cases "j = i")
      case True
      then show ?thesis using pid i by simp
    next
      case False
      then show ?thesis using ids j by simp
    qed
  qed
  have "\<forall>m\<in>set ms. 0 \<le> receiverId m \<and> nat (receiverId m) < length (procs s)"
  proof
    fix m assume "m \<in> set ms"
    then have "receiverId m \<in> set (map receiverId ms)" by simp
    then have "receiverId m \<in> proc_id ` set ((procs s)[i := pr'])"
      unfolding emit(6) by auto
    then obtain j where "j < length ((procs s)[i := pr'])" "receiverId m = proc_id ((procs s)[i := pr'] ! j)"
      by (auto simp: in_set_conv_nth)
    then show "0 \<le> receiverId m \<and> nat (receiverId m) < length (procs s)"
      using ids' by auto
  qed
  then have qs': "\<forall>m\<in>set (pq s @ ms). 0 \<le> receiverId m \<and> nat (receiverId m) < length ((procs s)[i := pr'])"
    using qs by auto
  have "tangle_inv ?s'" unfolding tangle_inv_def using g' vs' ids' qs' by simp
  then show ?case using emit(1) by auto
qed

lemma deliverTop_inv:
  assumes inv: "tangle_inv s" and top: "pq_top (pq s) = Some m"
  shows "tangle_inv (deliverTop m s)"
    and "length (procs (deliverTop m s)) = length (procs s)"
    and "out (deliverTop m s) = out s"
    and "g_messagesSent (deliverTop m s) = g_messagesSent s"
    and "g_nodes (deliverTop m s) = g_nodes s"
    and "pq (deliverTop m s) = remove1 m (pq s)"
proof -
  have g: "graph_ok (g_nodes s)" using inv by (simp add: tangle_inv_def)
  have vs: "\<forall>p\<in>set (procs s). view_ok (g_nodes s) p" using inv by (simp add: tangle_inv_def)
  have ids: "\<forall>j<length (procs s). proc_id (procs s ! j) = int j" using inv by (simp add: tangle_inv_def)
  have qs: "\<forall>m\<in>set (pq s). 0 \<le> receiverId m \<and> nat (receiverId m) < length (procs s)"
    using inv by (simp add: tangle_inv_def)
  have pop: "pq_pop (pq s) = remove1 m (pq s)" using top by (simp add: pq_pop_def)
  have qs': "\<forall>m'\<in>set (remove1 m (pq s)). 0 \<le> receiverId m' \<and> nat (receiverId m') < length (procs s)"
    using qs by (auto dest: notin_set_remove1)
  have rm: "nat (receiverId m) < length (procs s)" using qs pq_top_mem[OF top] by auto
  show "length (procs (deliverTop m s)) = length (procs s)"
    and "out (deliverTop m s) = out s"
    and "g_messagesSent (deliverTop m s) = g_messagesSent s"
    and "g_nodes (deliverTop m s) = g_nodes s"
    and "pq (deliverTop m s) = remove1 m (pq s)"
    using pop by (auto simp: deliverTop_def Let_def)
  show "tangle_inv (deliverTop m s)"
  proof (cases "nodeId m < 0 \<or> nodeId m \<ge> int (length (g_nodes s))")
    case True
    then have "deliverTop m s = s\<lparr>pq := remove1 m (pq s)\<rparr>"
      using pop by (simp add: deliverTop_def Let_def)
    then show ?thesis using inv qs' by (simp add: tangle_inv_def)
  next
    case False
    let ?j = "nat (receiverId m)"
    let ?p' = "processReceiveNode (g_nodes s) (procs s ! ?j) (nodeId m)"
    have eq: "deliverTop m s = s\<lparr>pq := remove1 m (pq s), procs := (procs s)[?j := ?p']\<rparr>"
      using pop False by (simp add: deliverTop_def Let_def)
    have "view_ok (g_nodes s) (procs s ! ?j)" using vs rm by simp
    then have "view_ok (g_nodes s) ?p'" using g False by (intro view_ok_receive) auto
    then have vs': "\<forall>p\<in>set ((procs s)[?j := ?p']). view_ok (g_nodes s) p"
      using vs by (auto dest!: set_update_subset_insert[THEN subsetD])
    have ids': "\<forall>k<length ((procs s)[?j := ?p']). proc_id ((procs s)[?j := ?p'] ! k) = int k"
    proof (intro allI impI)
      fix k assume "k < length ((procs s)[?j := ?p'])"
      then have k: "k < length (procs s)" by simp
      show "proc_id ((procs s)[?j := ?p'] ! k) = int k"
      proof (cases "k = ?j")
        case True
        then show ?thesis using ids rm by simp
      next
        case False
        then show ?thesis using ids k by simp
      qed
    qed
    show ?thesis unfolding eq tangle_inv_def using g vs' ids' qs' by simp
  qed
qed

lemma initState_inv:
  assumes "0 \<le> numProcesses cfg"
  shows "tangle_inv (initState mt cfg)"
proof -
  have "graph_ok [genesis]" by (simp add: graph_ok_def genesis_def)
  moreover have "view_ok [genesis] p" if "p \<in> set (initProcs (numProcesses cfg))" for p
    using that by (auto simp: initProcs_def view_ok_def genesis_def)
  moreover have "\<forall>i<length (initProcs (numProcesses cfg)). proc_id (initProcs (numProcesses cfg) ! i) = int i"
    by (simp add: initProcs_def)
  ultimately show ?thesis by (simp add: tangle_inv_def initState_def)
qed

section \<open>Mode A: the tip sets and the biased walk\<close>

lemma initProcs_2: "initProcs 2 = [\<lparr>proc_id = 0, knownNodes = [0], tipSet = [0]\<rparr>,
               \<lparr>proc_id = 1, knownNodes = [0], tipSet = [0]\<rparr>]"
  by (simp add: initProcs_def upt_rec)

lemma draw0: "uniform_double a b \<lparr>gen = mt0 sd, used = n\<rparr> = (a, \<lparr>gen = mt0 sd, used = Suc n\<rparr>)"
  by (simp add: uniform_double_def next_raw_def canonical_def mt0_def)

lemma drawi0: "uniform_int 0 b \<lparr>gen = mt0 sd, used = n\<rparr> = (0, \<lparr>gen = mt0 sd, used = Suc n\<rparr>)"
  by (simp add: uniform_int_def next_raw_def mt0_def)

lemma selectTips_2:
  "selectTips g proc rg md sb al 2 =
     (case selectTip g proc rg md sb al of None \<Rightarrow> None
      | Some (t1, rg1) \<Rightarrow>
         (case selectTip g proc rg1 md sb al of None \<Rightarrow> None
          | Some (t2, rg2) \<Rightarrow> Some ([t1, t2], rg2)))"
  by (simp add: selectTips_def numeral_2_eq_2 split: option.splits)

lemma create_state1: "createTransaction exact_dbl cfg0 0 0 (initState mt0 cfg0) = Some state1"
  by (simp add: createTransaction_def initState_def cfg0_def state1_def initProcs_2
      draw0 drawi0 txProb_def selectTips_2 exact_dbl_def
      selectTip_def uniformRandomTip_def genesis_def processReceiveNode_def us_insert_def
      us_erase_def pq_push_def Let_def)

lemma tangle_reachable_inv:
  "tangle_reachable cfg k s \<Longrightarrow> tangle_inv s \<and> g_messagesSent s = int k"
proof (induction rule: tangle_reachable.induct)
  case (init mt)
  then show ?case using initState_inv by (simp add: initState_def)
next
  case (deliver k s m)
  then show ?case using deliverTop_inv(1,4) by auto
next
  case (create k s i dbl now s')
  from createTransaction_inv[of s i dbl cfg now] create
  obtain ms where "tangle_inv s'" "pq s' = pq s @ ms"
    "g_messagesSent s' = g_messagesSent s + int (length ms)" by auto
  then show ?case using create.IH by simp
next
  case (log k s rv dbl now)
  then show ?case by (simp add: tangle_inv_def)
qed

lemma reachable_view_ok:
  assumes "tangle_reachable cfg k s" "p \<in> set (procs s)"
  shows "graph_ok (g_nodes s)" "view_ok (g_nodes s) p"
  using tangle_reachable_inv[OF assms(1)] assms(2) by (auto simp: tangle_inv_def)

text \<open>
  C1. In every state of a mode A run and for every process, a node id is in the local
  tip set exactly when it is known and none of the node's children in the graph is known.
  Receiving a known node changes nothing; receiving an unknown node (which, as everywhere
  in a run, is neither its own parent nor its own child) adds it to the knowledge set,
  removes the parents that were already known from the tip set, and adds the node to the
  tip set exactly when it has no known child.
\<close>

theorem tip_set_correct:
  "(tangle_reachable cfg k s \<and> p \<in> set (procs s) \<longrightarrow>
      (\<forall>n. n \<in> set (tipSet p) \<longleftrightarrow>
         n \<in> set (knownNodes p) \<and>
         (\<forall>c\<in>set (children (g_nodes s ! nat n)). c \<notin> set (knownNodes p)))) \<and>
   (nid \<in> set (knownNodes proc) \<longrightarrow> processReceiveNode g proc nid = proc) \<and>
   (nid \<notin> set (knownNodes proc) \<and>
    nid \<notin> set (parents (g ! nat nid)) \<and> nid \<notin> set (children (g ! nat nid)) \<longrightarrow>
      set (knownNodes (processReceiveNode g proc nid)) = insert nid (set (knownNodes proc)) \<and>
      set (tipSet (processReceiveNode g proc nid)) =
        (set (tipSet proc) - {q \<in> set (parents (g ! nat nid)). q \<in> set (knownNodes proc)}) \<union>
        (if \<exists>c\<in>set (children (g ! nat nid)). c \<in> set (knownNodes proc) then {} else {nid}))"
proof (intro conjI impI)
  assume "tangle_reachable cfg k s \<and> p \<in> set (procs s)"
  then have "view_ok (g_nodes s) p" using reachable_view_ok(2) by blast
  then show "\<forall>n. n \<in> set (tipSet p) \<longleftrightarrow>
         n \<in> set (knownNodes p) \<and>
         (\<forall>c\<in>set (children (g_nodes s ! nat n)). c \<notin> set (knownNodes p))"
    unfolding view_ok_def by blast
next
  assume "nid \<in> set (knownNodes proc)"
  then show "processReceiveNode g proc nid = proc" by (simp add: processReceiveNode_def)
next
  assume a: "nid \<notin> set (knownNodes proc) \<and>
    nid \<notin> set (parents (g ! nat nid)) \<and> nid \<notin> set (children (g ! nat nid))"
  show "set (knownNodes (processReceiveNode g proc nid)) = insert nid (set (knownNodes proc))"
    by (rule processReceiveNode_known)
  have "set (tipSet (processReceiveNode g proc nid)) =
           (set (tipSet proc) - (set (parents (g ! nat nid)) \<inter> insert nid (set (knownNodes proc))))
           \<union> (if \<exists>c\<in>set (children (g ! nat nid)). c \<in> insert nid (set (knownNodes proc))
               then {} else {nid})"
    using a by (intro processReceiveNode_tips) simp
  also have "set (parents (g ! nat nid)) \<inter> insert nid (set (knownNodes proc)) =
             {q \<in> set (parents (g ! nat nid)). q \<in> set (knownNodes proc)}"
    using a by auto
  also have "(\<exists>c\<in>set (children (g ! nat nid)). c \<in> insert nid (set (knownNodes proc))) \<longleftrightarrow>
             (\<exists>c\<in>set (children (g ! nat nid)). c \<in> set (knownNodes proc))"
    using a by auto
  finally show "set (tipSet (processReceiveNode g proc nid)) =
        (set (tipSet proc) - {q \<in> set (parents (g ! nat nid)). q \<in> set (knownNodes proc)}) \<union>
        (if \<exists>c\<in>set (children (g ! nat nid)). c \<in> set (knownNodes proc) then {} else {nid})" .
qed

lemma reachable_state1: "tangle_reachable cfg0 1 state1"
proof -
  have "tangle_reachable cfg0 0 (initState mt0 cfg0)"
    by (rule tangle_reachable.init) (simp add: cfg0_def)
  moreover have "0 < length (procs (initState mt0 cfg0))"
    by (simp add: initState_def cfg0_def initProcs_2)
  ultimately have "tangle_reachable cfg0
      (0 + (length (pq state1) - length (pq (initState mt0 cfg0)))) state1"
    using create_state1 by (rule tangle_reachable.create)
  then show ?thesis by (simp add: state1_def initState_def)
qed

theorem tip_set_correct_witness:
  "tangle_reachable cfg0 1 state1 \<and> procs state1 ! 1 \<in> set (procs state1) \<and>
   tipSet (procs state1 ! 1) = [0] \<and> knownNodes (procs state1 ! 1) = [0] \<and>
   children (g_nodes state1 ! 0) = [1, 1] \<and>
   processReceiveNode (g_nodes state1) (procs state1 ! 0) 1 = procs state1 ! 0 \<and>
   set (tipSet (processReceiveNode (g_nodes state1) (procs state1 ! 1) 1)) = {1}"
  using tip_set_correct[of cfg0 1 state1 "procs state1 ! 1" 1 "procs state1 ! 0" "g_nodes state1"]
    tip_set_correct[of cfg0 1 state1 "procs state1 ! 1" 1 "procs state1 ! 1" "g_nodes state1"]
    reachable_state1
  by (simp add: state1_def)

text \<open>
  C9. In every state of a mode A run every process has a non-empty local tip set: the
  greatest known id is a tip. So \<open>uniformRandomTip\<close> never takes the branch for the
  empty tip set: it returns the element of the tip set picked by the integer draw.
\<close>

theorem tip_set_nonempty:
  assumes "tangle_reachable cfg k s" "p \<in> set (procs s)"
  shows "tipSet p \<noteq> [] \<and> Max (set (knownNodes p)) \<in> set (tipSet p) \<and>
         (\<forall>rg. uniformRandomTip p rg =
            (case uniform_int 0 (int (length (tipSet p)) - 1) rg of
               (i, rg') \<Rightarrow> (tipSet p ! nat i, rg')))"
proof -
  have m: "Max (set (knownNodes p)) \<in> set (tipSet p)"
    using reachable_view_ok[OF assms] by (rule view_ok_tips_nonempty)
  then have ne: "tipSet p \<noteq> []" by auto
  then show ?thesis using m by (simp add: uniformRandomTip_def)
qed

theorem tip_set_nonempty_witness:
  "tangle_reachable cfg0 1 state1 \<and> procs state1 ! 0 \<in> set (procs state1) \<and>
   tipSet (procs state1 ! 0) = [1] \<and> Max (set (knownNodes (procs state1 ! 0))) = 1 \<and>
   uniformRandomTip (procs state1 ! 0) rng0 = (1, rng0\<lparr>used := 1\<rparr>)"
  using tip_set_nonempty[of cfg0 1 state1 "procs state1 ! 0"] reachable_state1
  by (simp add: state1_def uniform_int_def next_raw_def rng0_def)

text \<open>
  C10. In every state of a mode A run the biased walk returns for every process, every
  generator and every \<open>alpha\<close>, within as many loop iterations as the graph has nodes;
  from a node of the graph an iteration can move only to a known child, whose id is
  strictly greater and still in the graph.
\<close>

theorem biasedRandomWalk_terminates:
  assumes "tangle_reachable cfg k s" "p \<in> set (procs s)"
  shows "(\<exists>c rg'. biasedRandomWalk (g_nodes s) p rg alpha = Some (c, rg') \<and>
            biasedRandomWalk_steps (length (g_nodes s)) (g_nodes s) p alpha 0 rg = Some (c, rg')) \<and>
         (\<forall>current c. 0 \<le> current \<and> current < int (length (g_nodes s)) \<and>
            c \<in> set (filter (\<lambda>c. c \<in> set (knownNodes p)) (children (g_nodes s ! nat current)))
            \<longrightarrow> current < c \<and> c < int (length (g_nodes s)) \<and> c \<in> set (knownNodes p))"
proof
  note gv = reachable_view_ok[OF assms]
  have "g_nodes s \<noteq> []" using gv(1) by (simp add: graph_ok_def)
  then have "nat 0 < length (g_nodes s)" "length (g_nodes s) - nat 0 \<le> length (g_nodes s)" by auto
  from walk_steps_returns[OF gv(1) _ this, of p alpha rg]
  obtain c rg' where w: "biasedRandomWalk_steps (length (g_nodes s)) (g_nodes s) p alpha 0 rg = Some (c, rg')"
    by auto
  then show "\<exists>c rg'. biasedRandomWalk (g_nodes s) p rg alpha = Some (c, rg') \<and>
            biasedRandomWalk_steps (length (g_nodes s)) (g_nodes s) p alpha 0 rg = Some (c, rg')"
    using walk_steps_loop[OF w] by (simp add: biasedRandomWalk_def)
  show "\<forall>current c. 0 \<le> current \<and> current < int (length (g_nodes s)) \<and>
            c \<in> set (filter (\<lambda>c. c \<in> set (knownNodes p)) (children (g_nodes s ! nat current)))
            \<longrightarrow> current < c \<and> c < int (length (g_nodes s)) \<and> c \<in> set (knownNodes p)"
  proof (intro allI impI, elim conjE)
    fix current c
    assume r: "0 \<le> current" "current < int (length (g_nodes s))"
      and c: "c \<in> set (filter (\<lambda>c. c \<in> set (knownNodes p)) (children (g_nodes s ! nat current)))"
    have lt: "nat current < length (g_nodes s)" using r by simp
    have ch: "c \<in> set (children (g_nodes s ! nat current))" and kn: "c \<in> set (knownNodes p)"
      using c by auto
    from graph_ok_child(1,2)[OF gv(1) lt ch] r(1)
    have "current < c" "nat c < length (g_nodes s)" by auto
    then show "current < c \<and> c < int (length (g_nodes s)) \<and> c \<in> set (knownNodes p)"
      using kn by auto
  qed
qed

lemma draw0_fp:
  "uniform_double_fp real_fp a b \<lparr>gen = mt0 sd, used = n\<rparr> = (a, \<lparr>gen = mt0 sd, used = Suc n\<rparr>)"
  by (simp add: uniform_double_real_fp draw0)

lemma walk_state1:
  "biasedRandomWalk_steps (Suc (Suc 0)) (g_nodes state1) (procs state1 ! 0) 0 0 \<lparr>gen = mt0 0, used = 0\<rparr> =
     Some (1, \<lparr>gen = mt0 0, used = 1\<rparr>)"
proof -
  have kc: "[1, 1] = filter (\<lambda>c. c \<in> set (knownNodes (procs state1 ! 0))) (children (g_nodes state1 ! nat 0))"
    by (simp add: state1_def)
  have wc: "weighted_choice real_fp (map (\<lambda>childId. exp (0 * real_of_int (height (g_nodes state1 ! nat childId)))) [1, 1])
              \<lparr>gen = mt0 0, used = 0\<rparr> = (0, \<lparr>gen = mt0 0, used = 1\<rparr>)"
    by (simp add: weighted_choice_def real_fp_def uniform_double_fp_def next_raw_def
        canonical_def mt0_def)
  have "biasedRandomWalk_steps (Suc (Suc 0)) (g_nodes state1) (procs state1 ! 0) 0 0 \<lparr>gen = mt0 0, used = 0\<rparr> =
        biasedRandomWalk_steps (Suc 0) (g_nodes state1) (procs state1 ! 0) 0 ([1, 1] ! nat 0) \<lparr>gen = mt0 0, used = 1\<rparr>"
    by (rule walk_steps_move[OF kc _ wc]) simp_all
  also have "\<dots> = Some (1, \<lparr>gen = mt0 0, used = 1\<rparr>)"
    by (simp add: state1_def)
  finally show ?thesis .
qed

theorem biasedRandomWalk_terminates_witness:
  "tangle_reachable cfg0 1 state1 \<and> procs state1 ! 0 \<in> set (procs state1) \<and>
   biasedRandomWalk (g_nodes state1) (procs state1 ! 0) \<lparr>gen = mt0 0, used = 0\<rparr> 0 =
     Some (1, \<lparr>gen = mt0 0, used = 1\<rparr>) \<and>
   biasedRandomWalk_steps 2 (g_nodes state1) (procs state1 ! 0) 0 0 \<lparr>gen = mt0 0, used = 0\<rparr> =
     Some (1, \<lparr>gen = mt0 0, used = 1\<rparr>)"
proof -
  have r: "tangle_reachable cfg0 1 state1" by (rule reachable_state1)
  have m: "procs state1 ! 0 \<in> set (procs state1)" by (simp add: state1_def)
  have l: "length (g_nodes state1) = 2" by (simp add: state1_def)
  from biasedRandomWalk_terminates[OF r m, of "\<lparr>gen = mt0 0, used = 0\<rparr>" 0, THEN conjunct1]
  obtain c rg' where
    "biasedRandomWalk (g_nodes state1) (procs state1 ! 0) \<lparr>gen = mt0 0, used = 0\<rparr> 0 = Some (c, rg')"
    "biasedRandomWalk_steps 2 (g_nodes state1) (procs state1 ! 0) 0 0 \<lparr>gen = mt0 0, used = 0\<rparr> = Some (c, rg')"
    unfolding l by blast
  moreover have "biasedRandomWalk_steps 2 (g_nodes state1) (procs state1 ! 0) 0 0 \<lparr>gen = mt0 0, used = 0\<rparr> =
     Some (1, \<lparr>gen = mt0 0, used = 1\<rparr>)"
    using walk_state1 by (simp only: numeral_2_eq_2)
  ultimately show ?thesis using r m by simp
qed

section \<open>Mode B: the invariants of a run and the witness selection\<close>

lemma best_for_keep:
  "best_for g u S ow blk t \<Longrightarrow> owner (g ! nat bid) \<noteq> ow \<or> ow = u \<Longrightarrow>
   best_for g u (insert bid S) ow blk t"
  by (auto simp: best_for_def split: if_splits)

lemma best_for_new:
  "best_for g u S ow blk t \<Longrightarrow> owner (g ! nat bid) = ow \<Longrightarrow> ow \<noteq> u \<Longrightarrow>
   t < w_timestamp (g ! nat bid) \<Longrightarrow>
   best_for g u (insert bid S) ow bid (w_timestamp (g ! nat bid))"
  by (fastforce simp: best_for_def split: if_splits)

lemma best_for_old:
  "best_for g u S ow blk t \<Longrightarrow> owner (g ! nat bid) = ow \<Longrightarrow> ow \<noteq> u \<Longrightarrow>
   \<not> t < w_timestamp (g ! nat bid) \<Longrightarrow> 0 \<le> w_timestamp (g ! nat bid) \<Longrightarrow>
   best_for g u (insert bid S) ow blk t"
  by (auto simp: best_for_def split: if_splits)

lemma scanned_step:
  assumes g: "wgraph_ok (int (length bb)) g"
    and sc: "scanned g u S (bb, bt)"
    and b: "0 \<le> bid" "bid < int (length g)"
  shows "scanned g u (insert bid S)
           (if owner (g ! nat bid) < 0 then (bb, bt)
            else if owner (g ! nat bid) = u then (bb, bt)
            else if w_timestamp (g ! nat bid) > bt ! nat (owner (g ! nat bid))
            then (bb[nat (owner (g ! nat bid)) := bid], bt[nat (owner (g ! nat bid)) := w_timestamp (g ! nat bid)])
            else (bb, bt))"
proof -
  let ?o = "owner (g ! nat bid)"
  let ?t = "w_timestamp (g ! nat bid)"
  have len: "length bb = length bt" using sc by (simp add: scanned_def)
  have bl: "nat bid < length g" using b by simp
  have ob: "?o < int (length bb)" "0 \<le> ?t" using g bl unfolding wgraph_ok_def by auto
  have old: "best_for g u S (int ow) (bb ! ow) (bt ! ow)" if "ow < length bb" for ow
    using sc that by (simp add: scanned_def)
  show ?thesis
  proof (cases "?o < 0 \<or> ?o = u")
    case True
    have "best_for g u (insert bid S) (int ow) (bb ! ow) (bt ! ow)" if "ow < length bb" for ow
      using old[OF that] True by (intro best_for_keep) auto
    then have "scanned g u (insert bid S) (bb, bt)" using len by (simp add: scanned_def)
    then show ?thesis using True by auto
  next
    case False
    then have o: "0 \<le> ?o" "?o \<noteq> u" by auto
    let ?k = "nat ?o"
    have k: "?k < length bb" "int ?k = ?o" using o ob by auto
    show ?thesis
    proof (cases "?t > bt ! ?k")
      case True
      have "best_for g u (insert bid S) (int ow) (bb[?k := bid] ! ow) (bt[?k := ?t] ! ow)"
        if ow: "ow < length bb" for ow
      proof (cases "ow = ?k")
        case eq: True
        have "best_for g u (insert bid S) ?o bid ?t"
          using old[OF k(1)] True o(2) k(2) by (intro best_for_new) auto
        then show ?thesis using eq k len by simp
      next
        case ne: False
        then have "?o \<noteq> int ow" using k by auto
        then have "best_for g u (insert bid S) (int ow) (bb ! ow) (bt ! ow)"
          using old[OF ow] by (intro best_for_keep) auto
        then show ?thesis using ne by simp
      qed
      then have "scanned g u (insert bid S) (bb[?k := bid], bt[?k := ?t])"
        using len by (simp add: scanned_def)
      then show ?thesis using False True by auto
    next
      case le: False
      have "best_for g u (insert bid S) (int ow) (bb ! ow) (bt ! ow)" if ow: "ow < length bb" for ow
      proof (cases "ow = ?k")
        case eq: True
        have "best_for g u (insert bid S) ?o (bb ! ?k) (bt ! ?k)"
          using old[OF k(1)] le o(2) k(2) ob(2) by (intro best_for_old) auto
        then show ?thesis using eq k by simp
      next
        case ne: False
        then have "?o \<noteq> int ow" using k by auto
        then show ?thesis using old[OF ow] by (intro best_for_keep) auto
      qed
      then have "scanned g u (insert bid S) (bb, bt)" using len by (simp add: scanned_def)
      then show ?thesis using False le by auto
    qed
  qed
qed

lemma scanKnown_scanned:
  assumes g: "wgraph_ok (int n) g"
  shows "length bb = n \<Longrightarrow> \<forall>b\<in>S. 0 \<le> b \<and> b < int (length g) \<Longrightarrow>
         \<forall>b\<in>set bids. 0 \<le> b \<and> b < int (length g) \<Longrightarrow>
         scanned g (wp_id proc) S (bb, bt) \<Longrightarrow>
         scanned g (wp_id proc) (S \<union> set bids) (scanKnown g proc bids (bb, bt)) \<and>
         length (fst (scanKnown g proc bids (bb, bt))) = n"
proof (induction bids arbitrary: S bb bt)
  case Nil
  then show ?case by simp
next
  case (Cons bid bids)
  let ?st = "(if owner (g ! nat bid) < 0 then (bb, bt)
            else if owner (g ! nat bid) = wp_id proc then (bb, bt)
            else if w_timestamp (g ! nat bid) > bt ! nat (owner (g ! nat bid))
            then (bb[nat (owner (g ! nat bid)) := bid], bt[nat (owner (g ! nat bid)) := w_timestamp (g ! nat bid)])
            else (bb, bt))"
  have b: "0 \<le> bid" "bid < int (length g)" using Cons.prems(3) by auto
  have g': "wgraph_ok (int (length bb)) g" using g Cons.prems(1) by simp
  have sc: "scanned g (wp_id proc) (insert bid S) ?st"
    by (rule scanned_step[OF g' Cons.prems(4) b])
  have eq: "scanKnown g proc (bid # bids) (bb, bt) = scanKnown g proc bids ?st"
    using b by (simp add: Let_def)
  obtain bb1 bt1 where st: "?st = (bb1, bt1)" by (cases ?st)
  have l1: "length bb1 = n" using st Cons.prems(1) by (auto split: if_splits)
  have S1: "\<forall>b\<in>insert bid S. 0 \<le> b \<and> b < int (length g)" using Cons.prems(2) b by auto
  have r: "\<forall>b\<in>set bids. 0 \<le> b \<and> b < int (length g)" using Cons.prems(3) by auto
  from Cons.IH[OF l1 S1 r sc[unfolded st]]
  show ?case unfolding eq st by simp
qed

lemma collectCands_map:
  "collectCands proc bb bt ows =
     map (\<lambda>ow. \<lparr>c_owner = int ow, blockId = bb ! ow, ts = bt ! ow\<rparr>)
       (filter (\<lambda>ow. int ow \<noteq> wp_id proc \<and> bb ! ow \<noteq> - 1) ows)"
  by (induction ows) auto

lemma candidates_latest:
  assumes g: "wgraph_ok n g" and n: "0 \<le> n"
    and kn: "\<forall>b\<in>set (knownBlocks pr). 0 \<le> b \<and> b < int (length g)"
  shows "latest_per_owner g pr (candidates g n pr)"
proof -
  let ?u = "wp_id pr"
  let ?S = "set (knownBlocks pr)"
  let ?init = "(replicate (nat n) (- 1 :: int), replicate (nat n) (- 1 :: real))"
  obtain bb bt where sk: "scanKnown g pr (knownBlocks pr) ?init = (bb, bt)"
    by (cases "scanKnown g pr (knownBlocks pr) ?init")
  have g': "wgraph_ok (int (nat n)) g" using g n by simp
  have i0: "scanned g ?u {} ?init" by (simp add: scanned_def best_for_def)
  have "scanned g ?u ({} \<union> ?S) (scanKnown g pr (knownBlocks pr) ?init) \<and>
        length (fst (scanKnown g pr (knownBlocks pr) ?init)) = nat n"
    by (rule scanKnown_scanned[OF g' _ _ kn i0]) simp_all
  then have sc: "scanned g ?u ?S (bb, bt)" and lb: "length bb = nat n" using sk by auto
  have bf: "best_for g ?u ?S (int ow) (bb ! ow) (bt ! ow)" if "ow < nat n" for ow
    using sc lb that by (simp add: scanned_def)
  let ?ok = "\<lambda>ow. int ow \<noteq> ?u \<and> bb ! ow \<noteq> - 1"
  let ?mk = "\<lambda>ow. \<lparr>c_owner = int ow, blockId = bb ! ow, ts = bt ! ow\<rparr>"
  have cd: "candidates g n pr = map ?mk (filter ?ok [0..<nat n])"
    using sk by (simp add: candidates_def collectCands_map)
  have "c_owner \<circ> ?mk = int" by (rule ext) simp
  then have "map c_owner (candidates g n pr) = map int (filter ?ok [0..<nat n])"
    unfolding cd map_map by simp
  moreover have "distinct (map int (filter ?ok [0..<nat n]))"
    by (simp add: distinct_map inj_on_def)
  ultimately have d: "distinct (map c_owner (candidates g n pr))" by simp
  have each: "c_owner c \<noteq> ?u \<and> 0 \<le> c_owner c \<and> blockId c \<in> ?S \<and>
        owner (g ! nat (blockId c)) = c_owner c \<and> ts c = w_timestamp (g ! nat (blockId c)) \<and>
        (\<forall>b\<in>?S. owner (g ! nat b) = c_owner c \<longrightarrow> w_timestamp (g ! nat b) \<le> ts c)"
    if "c \<in> set (candidates g n pr)" for c
  proof -
    from that cd obtain ow where ow: "ow < nat n" "int ow \<noteq> ?u" "bb ! ow \<noteq> - 1" "c = ?mk ow"
      by auto
    from bf[OF ow(1)] ow(2,3) show ?thesis unfolding best_for_def ow(4)
      by (auto split: if_splits)
  qed
  have compl: "owner (g ! nat b) \<in> c_owner ` set (candidates g n pr)"
    if b: "b \<in> ?S" and o: "0 \<le> owner (g ! nat b)" "owner (g ! nat b) \<noteq> ?u" for b
  proof -
    let ?ow = "nat (owner (g ! nat b))"
    have "nat b < length g" using kn b by auto
    then have "owner (g ! nat b) < n" using g unfolding wgraph_ok_def by blast
    then have ow: "?ow < nat n" "int ?ow = owner (g ! nat b)" using o by auto
    from bf[OF ow(1)] b o ow(2) have "bb ! ?ow \<in> ?S"
      unfolding best_for_def by (auto split: if_splits)
    then have "bb ! ?ow \<noteq> - 1" using kn by auto
    then have "?ow \<in> set (filter ?ok [0..<nat n])" using ow o by simp
    then have "?mk ?ow \<in> set (candidates g n pr)" unfolding cd set_map by (rule imageI)
    then have "c_owner (?mk ?ow) \<in> c_owner ` set (candidates g n pr)" by (rule imageI)
    then show ?thesis using ow(2) by simp
  qed
  show ?thesis unfolding latest_per_owner_def using d each compl by blast
qed

lemma sorts_descD:
  assumes "sorts_desc srt"
  shows "mset (srt cs) = mset cs" "sorted_wrt (\<lambda>a b. ts b \<le> ts a) (srt cs)"
  using assms unfolding sorts_desc_def by blast+

lemma sort_by_ts_sorts: "sorts_desc sort_by_ts"
proof -
  have "sorted_wrt (\<lambda>a b. ts b \<le> ts a) (sort_by_ts cs)" for cs
  proof -
    have "sorted (map (\<lambda>c. - ts c) (sort_by_ts cs))" by (simp add: sort_by_ts_def)
    then show ?thesis by (simp add: sorted_wrt_map)
  qed
  moreover have "mset (sort_by_ts cs) = mset cs" for cs by (simp add: sort_by_ts_def)
  ultimately show ?thesis unfolding sorts_desc_def by blast
qed

lemma latest_per_owner_perm:
  assumes "mset cs' = mset cs" "latest_per_owner g pr cs"
  shows "latest_per_owner g pr cs'"
proof -
  have s: "set cs' = set cs" using assms(1) by (rule mset_eq_setD)
  have "mset (map c_owner cs') = mset (map c_owner cs)" using assms(1) by simp
  then have "distinct (map c_owner cs') \<longleftrightarrow> distinct (map c_owner cs)"
    by (rule mset_eq_imp_distinct_iff)
  then show ?thesis using assms(2) unfolding latest_per_owner_def s by blast
qed

lemma takeWitnesses_append:
  "takeWitnesses maxW cs acc = acc @ take (nat maxW - length acc) (map blockId cs)"
proof (induction cs arbitrary: acc)
  case Nil
  then show ?case by simp
next
  case (Cons c cs)
  show ?case
  proof (cases "int (length acc) \<ge> maxW")
    case True
    then have "nat maxW - length acc = 0" by simp
    then show ?thesis using True by simp
  next
    case False
    then obtain k where k: "nat maxW - length acc = Suc k" by (cases "nat maxW - length acc") auto
    then have "nat maxW - length (acc @ [blockId c]) = k" by simp
    then show ?thesis using False Cons.IH[of "acc @ [blockId c]"] k by simp
  qed
qed

lemma selectWitnesses_take:
  "selectWitnesses srt g n pr maxW = take (nat maxW) (map blockId (srt (candidates g n pr)))"
  by (simp add: selectWitnesses_def takeWitnesses_append)

lemma addWitnesses_filter:
  "ps \<noteq> [] \<Longrightarrow> addWitnesses ws ps = ps @ filter (\<lambda>w. w \<noteq> ps ! 0) ws"
proof (induction ws arbitrary: ps)
  case Nil
  then show ?case by simp
next
  case (Cons w ws)
  have "(ps @ [w]) ! 0 = ps ! 0" using Cons.prems by (cases ps) auto
  then show ?case using Cons.IH[of "ps @ [w]"] Cons.IH[of ps] Cons.prems by simp
qed

lemma blockParents_eq:
  "blockParents srt g n pr maxW =
     (if lastBlockId pr = - 1 then 0 else lastBlockId pr) #
     filter (\<lambda>w. w \<noteq> (if lastBlockId pr = - 1 then 0 else lastBlockId pr))
       (take (nat maxW) (map blockId (srt (candidates g n pr))))"
  by (simp add: blockParents_def addWitnesses_filter selectWitnesses_take)

lemma core_update:
  assumes "w_id x = w_id (g ! k)" "owner x = owner (g ! k)" "w_timestamp x = w_timestamp (g ! k)"
    "w_parents x = w_parents (g ! k)"
  shows "core (g[k := x]) = core g"
proof (cases "k < length g")
  case True
  have "core (g[k := x]) = (core g)[k := core g ! k]"
    using assms True by (simp add: core_def map_update)
  then show ?thesis by simp
next
  case False
  then have "g[k := x] = g" by (intro list_update_beyond) simp
  then show ?thesis by simp
qed

lemma core_nth:
  assumes "core g' = core g" "i < length g"
  shows "w_id (g' ! i) = w_id (g ! i)" "owner (g' ! i) = owner (g ! i)"
    "w_timestamp (g' ! i) = w_timestamp (g ! i)" "w_parents (g' ! i) = w_parents (g ! i)"
proof -
  have l: "length g' = length g" using assms(1) by (metis core_def length_map)
  have "core g' ! i = core g ! i" using assms(1) by simp
  then have "(w_id (g' ! i), owner (g' ! i), w_timestamp (g' ! i), w_parents (g' ! i)) =
             (w_id (g ! i), owner (g ! i), w_timestamp (g ! i), w_parents (g ! i))"
    using assms(2) l by (simp add: core_def)
  then show "w_id (g' ! i) = w_id (g ! i)" "owner (g' ! i) = owner (g ! i)"
    "w_timestamp (g' ! i) = w_timestamp (g ! i)" "w_parents (g' ! i) = w_parents (g ! i)"
    by auto
qed

lemma core_length: "core g' = core g \<Longrightarrow> length g' = length g"
  by (metis core_def length_map)

lemma linkParents_w_core:
  "linkParents_w newId ps (g, leaves) = (g', leaves') \<Longrightarrow> core g' = core g"
proof (induction ps arbitrary: g leaves)
  case Nil
  then show ?case by simp
next
  case (Cons p ps)
  let ?g1 = "g[nat p := (g ! nat p)\<lparr>w_children := w_children (g ! nat p) @ [newId]\<rparr>]"
  let ?g2 = "?g1[nat p := (?g1 ! nat p)\<lparr>isLeaf := False\<rparr>]"
  have c1: "core ?g1 = core g" by (rule core_update) simp_all
  have c2: "core ?g2 = core ?g1" by (rule core_update) simp_all
  show ?case
  proof (cases "isLeaf (?g1 ! nat p)")
    case True
    then have "linkParents_w newId ps (?g2, us_erase p leaves) = (g', leaves')"
      using Cons.prems by (simp add: Let_def)
    from Cons.IH[OF this] c1 c2 show ?thesis by simp
  next
    case False
    then have "linkParents_w newId ps (?g1, leaves) = (g', leaves')"
      using Cons.prems by (simp add: Let_def)
    from Cons.IH[OF this] c1 show ?thesis by simp
  qed
qed

lemma wgraph_ok_core:
  assumes "core g' = core g" "wgraph_ok n g"
  shows "wgraph_ok n g'"
proof -
  have l: "length g' = length g" using assms(1) by (rule core_length)
  have ne: "g \<noteq> []" using assms(2) by (simp add: wgraph_ok_def)
  then have z: "0 < length g" by simp
  have "owner (g' ! 0) = - 1" using core_nth(2)[OF assms(1) z] assms(2) by (simp add: wgraph_ok_def)
  moreover have "g' \<noteq> []" using l ne by auto
  moreover have "w_id (g' ! i) = int i \<and>
        (\<forall>p\<in>set (w_parents (g' ! i)). 0 \<le> p \<and> p < int i) \<and>
        - 1 \<le> owner (g' ! i) \<and> owner (g' ! i) < n \<and> 0 \<le> w_timestamp (g' ! i)"
    if "i < length g'" for i
  proof -
    have i: "i < length g" using that l by simp
    show ?thesis using core_nth[OF assms(1) i] assms(2) i unfolding wgraph_ok_def by simp
  qed
  ultimately show ?thesis unfolding wgraph_ok_def by blast
qed

lemma user_ok_core:
  assumes "core g' = core g" "user_ok g p"
  shows "user_ok g' p"
proof -
  have l: "length g' = length g" using assms(1) by (rule core_length)
  have o: "owner (g' ! j) = owner (g ! j)" if "j < length g" for j
    using core_nth(2)[OF assms(1) that] .
  show ?thesis
  proof (cases "lastBlockId p = - 1")
    case True
    then show ?thesis using assms(2) l o unfolding user_ok_def by simp
  next
    case False
    then have "nat (lastBlockId p) < length g" using assms(2) unfolding user_ok_def by auto
    then show ?thesis using False assms(2) l o unfolding user_ok_def by simp
  qed
qed

lemma broadcastNode_w_queue:
  "broadcastNode_w dbl nid sender ps q rg t mn mx = (q', rg') \<Longrightarrow>
   \<exists>ms. q' = q @ ms \<and>
        map receiverId ms = map wp_id (filter (\<lambda>p. wp_id p \<noteq> sender) ps) \<and>
        (\<forall>m\<in>set ms. nodeId m = nid)"
proof (induction ps arbitrary: q rg)
  case Nil
  then show ?case by simp
next
  case (Cons p ps)
  show ?case
  proof (cases "wp_id p = sender")
    case True
    then have "broadcastNode_w dbl nid sender ps q rg t mn mx = (q', rg')"
      using Cons.prems by simp
    from Cons.IH[OF this] show ?thesis using True by simp
  next
    case False
    obtain delay rg1 where u: "uniform_double mn mx rg = (delay, rg1)"
      by (cases "uniform_double mn mx rg")
    let ?m = "\<lparr>deliverTime = dadd dbl t delay, receiverId = wp_id p, nodeId = nid\<rparr>"
    have "broadcastNode_w dbl nid sender ps (pq_push ?m q) rg1 t mn mx = (q', rg')"
      using Cons.prems False u by simp
    from Cons.IH[OF this]
    obtain ms where ms: "q' = pq_push ?m q @ ms"
      "map receiverId ms = map wp_id (filter (\<lambda>p. wp_id p \<noteq> sender) ps)"
      "\<forall>m\<in>set ms. nodeId m = nid"
      by blast
    have "q' = q @ (?m # ms)" using ms(1) by (simp add: pq_push_def)
    moreover have "map receiverId (?m # ms) = map wp_id (filter (\<lambda>p. wp_id p \<noteq> sender) (p # ps))"
      using ms(2) False by simp
    moreover have "\<forall>m\<in>set (?m # ms). nodeId m = nid" using ms(3) by simp
    ultimately show ?thesis by blast
  qed
qed

lemma blockParents_range:
  assumes g: "wgraph_ok n g" and n: "0 \<le> n" and u: "user_ok g pr" and srt: "sorts_desc srt"
  shows "\<forall>p\<in>set (blockParents srt g n pr maxW). 0 \<le> p \<and> p < int (length g)"
proof -
  have kn: "\<forall>b\<in>set (knownBlocks pr). 0 \<le> b \<and> b < int (length g)"
    using u unfolding user_ok_def by blast
  let ?own = "if lastBlockId pr = - 1 then 0 else lastBlockId pr"
  let ?cs = "srt (candidates g n pr)"
  have "g \<noteq> []" using g by (simp add: wgraph_ok_def)
  then have own: "0 \<le> ?own \<and> ?own < int (length g)"
    using u unfolding user_ok_def by (auto split: if_splits)
  have "latest_per_owner g pr ?cs"
    using sorts_descD(1)[OF srt] candidates_latest[OF g n kn] by (rule latest_per_owner_perm)
  then have "\<forall>c\<in>set ?cs. blockId c \<in> set (knownBlocks pr)"
    unfolding latest_per_owner_def by blast
  then have "\<forall>w\<in>set (map blockId ?cs). 0 \<le> w \<and> w < int (length g)" using kn by auto
  then have "\<forall>w\<in>set (take (nat maxW) (map blockId ?cs)). 0 \<le> w \<and> w < int (length g)"
    by (meson in_set_takeD)
  then show ?thesis unfolding blockParents_eq using own by auto
qed

lemma postBlock_cases:
  obtains (idle) rg1 where "postBlock srt dbl cfg t i s = s\<lparr>rng_w := rg1\<rparr>"
  | (emit) g' leaves ms rg2 where
      "postBlock srt dbl cfg t i s =
         s\<lparr>g_wnodes := g', g_globalLeaves := leaves,
           procs_w := (procs_w s)[i := (procs_w s ! i)
              \<lparr>lastBlockId := int (length (g_wnodes s)),
               knownBlocks := us_insert (int (length (g_wnodes s))) (knownBlocks (procs_w s ! i))\<rparr>],
           pq_w := pq_w s @ ms, rng_w := rg2\<rparr>"
      "core g' = core (g_wnodes s @
         [\<lparr>w_id = int (length (g_wnodes s)), owner = wp_id (procs_w s ! i), w_timestamp = t,
           w_parents = blockParents srt (g_wnodes s) (g_numUsers s) (procs_w s ! i) (maxWitnesses cfg),
           w_children = [], isLeaf = True\<rparr>])"
      "map receiverId ms = map wp_id (filter (\<lambda>p. wp_id p \<noteq> wp_id (procs_w s ! i))
         ((procs_w s)[i := (procs_w s ! i)
              \<lparr>lastBlockId := int (length (g_wnodes s)),
               knownBlocks := us_insert (int (length (g_wnodes s))) (knownBlocks (procs_w s ! i))\<rparr>]))"
proof -
  obtain r rg1 where u: "uniform_double 0 1 (rng_w s) = (r, rg1)"
    by (cases "uniform_double 0 1 (rng_w s)")
  show ?thesis
  proof (cases "r < postProbPerStep cfg")
    case False
    then have "postBlock srt dbl cfg t i s = s\<lparr>rng_w := rg1\<rparr>"
      using u by (simp add: postBlock_def)
    then show ?thesis by (rule idle)
  next
    case True
    let ?pr = "procs_w s ! i"
    let ?n = "int (length (g_wnodes s))"
    let ?node = "\<lparr>w_id = ?n, owner = wp_id ?pr, w_timestamp = t,
           w_parents = blockParents srt (g_wnodes s) (g_numUsers s) ?pr (maxWitnesses cfg),
           w_children = [], isLeaf = True\<rparr>"
    let ?pr' = "?pr\<lparr>lastBlockId := ?n, knownBlocks := us_insert ?n (knownBlocks ?pr)\<rparr>"
    obtain g1 leaves where lp: "linkParents_w ?n (w_parents ?node) (g_wnodes s @ [?node], g_globalLeaves s) = (g1, leaves)"
      by (cases "linkParents_w ?n (w_parents ?node) (g_wnodes s @ [?node], g_globalLeaves s)")
    define g' where "g' = g1[nat ?n := (g1 ! nat ?n)\<lparr>isLeaf := True\<rparr>]"
    obtain q' rg2 where bc: "broadcastNode_w dbl ?n (wp_id ?pr') ((procs_w s)[i := ?pr']) (pq_w s) rg1 t
        (minDelay_w cfg) (maxDelay_w cfg) = (q', rg2)"
      by (cases "broadcastNode_w dbl ?n (wp_id ?pr') ((procs_w s)[i := ?pr']) (pq_w s) rg1 t
        (minDelay_w cfg) (maxDelay_w cfg)")
    from broadcastNode_w_queue[OF bc] obtain ms where ms: "q' = pq_w s @ ms"
      "map receiverId ms = map wp_id (filter (\<lambda>p. wp_id p \<noteq> wp_id ?pr') ((procs_w s)[i := ?pr']))"
      by blast
    have "core g' = core g1" unfolding g'_def by (rule core_update) simp_all
    then have c: "core g' = core (g_wnodes s @ [?node])" using linkParents_w_core[OF lp] by simp
    have eq: "postBlock srt dbl cfg t i s =
         s\<lparr>g_wnodes := g', g_globalLeaves := us_insert ?n leaves,
           procs_w := (procs_w s)[i := ?pr'], pq_w := pq_w s @ ms, rng_w := rg2\<rparr>"
      using u True lp bc ms(1) by (simp add: postBlock_def Let_def g'_def)
    have r: "map receiverId ms = map wp_id (filter (\<lambda>p. wp_id p \<noteq> wp_id ?pr) ((procs_w s)[i := ?pr']))"
      using ms(2) by simp
    show ?thesis by (rule emit[OF eq c r])
  qed
qed

lemma witness_invD:
  assumes "witness_inv s"
  shows "wgraph_ok (g_numUsers s) (g_wnodes s)" "0 \<le> g_numUsers s"
    "length (procs_w s) = nat (g_numUsers s)"
    "\<And>j. j < length (procs_w s) \<Longrightarrow> wp_id (procs_w s ! j) = int j"
    "\<And>j. j < length (procs_w s) \<Longrightarrow> user_ok (g_wnodes s) (procs_w s ! j)"
    "\<forall>m\<in>set (pq_w s). 0 \<le> receiverId m \<and> nat (receiverId m) < length (procs_w s)"
  using assms unfolding witness_inv_def by blast+

lemma witness_invI:
  assumes "wgraph_ok (g_numUsers s) (g_wnodes s)" "0 \<le> g_numUsers s"
    "length (procs_w s) = nat (g_numUsers s)"
    "\<forall>j<length (procs_w s). wp_id (procs_w s ! j) = int j \<and> user_ok (g_wnodes s) (procs_w s ! j)"
    "\<forall>m\<in>set (pq_w s). 0 \<le> receiverId m \<and> nat (receiverId m) < length (procs_w s)"
  shows "witness_inv s"
  unfolding witness_inv_def using assms by blast

lemma postBlock_inv:
  assumes inv: "witness_inv s" and i: "i < length (procs_w s)" and t: "0 \<le> t"
    and srt: "sorts_desc srt"
  shows "witness_inv (postBlock srt dbl cfg t i s)"
proof (rule postBlock_cases[of srt dbl cfg t i s], goal_cases idle emit)
  case (idle rg1)
  have "witness_inv (s\<lparr>rng_w := rg1\<rparr>) \<longleftrightarrow> witness_inv s" by (simp add: witness_inv_def)
  then show ?case using inv idle by simp
next
  case (emit g' leaves ms rg2)
  let ?g = "g_wnodes s"
  let ?n = "length ?g"
  let ?pr = "procs_w s ! i"
  let ?N = "g_numUsers s"
  let ?node = "\<lparr>w_id = int ?n, owner = wp_id ?pr, w_timestamp = t,
           w_parents = blockParents srt ?g ?N ?pr (maxWitnesses cfg),
           w_children = [], isLeaf = True\<rparr>"
  let ?pr' = "?pr\<lparr>lastBlockId := int ?n, knownBlocks := us_insert (int ?n) (knownBlocks ?pr)\<rparr>"
  let ?ge = "?g @ [?node]"
  note g = witness_invD(1)[OF inv] and N = witness_invD(2)[OF inv] and lp = witness_invD(3)[OF inv]
    and ids = witness_invD(4)[OF inv] and us = witness_invD(5)[OF inv] and qs = witness_invD(6)[OF inv]
  have pid: "wp_id ?pr = int i" using ids i by simp
  have ne: "?g \<noteq> []" using g by (simp add: wgraph_ok_def)
  have br: "\<forall>p\<in>set (blockParents srt ?g ?N ?pr (maxWitnesses cfg)). 0 \<le> p \<and> p < int ?n"
    by (rule blockParents_range[OF g N us[OF i] srt])
  have old: "\<And>j. j < ?n \<Longrightarrow> w_id (?g ! j) = int j \<and>
        (\<forall>p\<in>set (w_parents (?g ! j)). 0 \<le> p \<and> p < int j) \<and>
        - 1 \<le> owner (?g ! j) \<and> owner (?g ! j) < ?N \<and> 0 \<le> w_timestamp (?g ! j)"
    using g unfolding wgraph_ok_def by blast
  have ge: "wgraph_ok ?N ?ge"
    unfolding wgraph_ok_def
  proof (intro conjI allI impI)
    show "?ge \<noteq> []" by simp
    show "owner (?ge ! 0) = - 1" using g ne by (simp add: wgraph_ok_def nth_append)
  next
    fix j assume "j < length ?ge"
    then consider "j < ?n" | "j = ?n" by fastforce
    then have "w_id (?ge ! j) = int j \<and>
        (\<forall>p\<in>set (w_parents (?ge ! j)). 0 \<le> p \<and> p < int j) \<and>
        - 1 \<le> owner (?ge ! j) \<and> owner (?ge ! j) < ?N \<and> 0 \<le> w_timestamp (?ge ! j)"
    proof cases
      case 1
      then show ?thesis using old[OF 1] by (simp add: nth_append)
    next
      case 2
      have "int i < ?N" using i lp N by linarith
      then show ?thesis using 2 br pid t by simp
    qed
    then show "w_id (?ge ! j) = int j" "\<forall>p\<in>set (w_parents (?ge ! j)). 0 \<le> p \<and> p < int j"
      "- 1 \<le> owner (?ge ! j)" "owner (?ge ! j) < ?N" "0 \<le> w_timestamp (?ge ! j)" by blast+
  qed
  have g': "wgraph_ok ?N g'" using emit(2) ge by (rule wgraph_ok_core)
  have len': "length g' = Suc ?n" using core_length[OF emit(2)] by simp
  have own': "owner (g' ! j) = owner (?ge ! j)" if "j < Suc ?n" for j
    using core_nth(2)[OF emit(2), of j] that by simp
  have own_old: "owner (g' ! j) = owner (?g ! j)" if "j < ?n" for j
    using own'[of j] that by (simp add: nth_append)
  have own_new: "owner (g' ! ?n) = int i" using own'[of ?n] pid by simp
  have uo: "user_ok g' (procs_w s ! j)" if j: "j < length (procs_w s)" "j \<noteq> i" for j
  proof -
    let ?p = "procs_w s ! j"
    have pj: "wp_id ?p = int j" using ids j by simp
    have u: "user_ok ?g ?p" using us j by simp
    have kn: "\<forall>b\<in>set (knownBlocks ?p). 0 \<le> b \<and> b < int (length g')"
      using u len' unfolding user_ok_def by auto
    show ?thesis
    proof (cases "lastBlockId ?p = - 1")
      case True
      have "owner (g' ! k) \<noteq> wp_id ?p" if "k < length g'" for k
      proof (cases "k < ?n")
        case True
        then show ?thesis using u \<open>lastBlockId ?p = - 1\<close> own_old[OF True] unfolding user_ok_def by simp
      next
        case False
        then have "k = ?n" using that len' by simp
        then show ?thesis using own_new pj j(2) by simp
      qed
      then show ?thesis using True kn unfolding user_ok_def by simp
    next
      case False
      then have lb: "0 \<le> lastBlockId ?p" "lastBlockId ?p < int ?n"
        "owner (?g ! nat (lastBlockId ?p)) = wp_id ?p"
        "\<forall>k<?n. owner (?g ! k) = wp_id ?p \<longrightarrow> int k \<le> lastBlockId ?p"
        using u unfolding user_ok_def by auto
      have a: "owner (g' ! nat (lastBlockId ?p)) = wp_id ?p"
        using own_old[of "nat (lastBlockId ?p)"] lb by simp
      have b: "int k \<le> lastBlockId ?p" if "k < length g'" "owner (g' ! k) = wp_id ?p" for k
      proof (cases "k < ?n")
        case True
        then show ?thesis using lb(4) own_old[OF True] that(2) by simp
      next
        case False
        then have "k = ?n" using that(1) len' by simp
        then show ?thesis using own_new pj j(2) that(2) by simp
      qed
      show ?thesis using False kn lb(1,2) a b len' unfolding user_ok_def by auto
    qed
  qed
  have un: "user_ok g' ?pr'"
  proof -
    have "\<forall>b\<in>set (knownBlocks ?pr). 0 \<le> b \<and> b < int ?n" using us[OF i] unfolding user_ok_def by blast
    then have "\<forall>b\<in>set (knownBlocks ?pr'). 0 \<le> b \<and> b < int (length g')" using len' by auto
    moreover have "owner (g' ! nat (lastBlockId ?pr')) = wp_id ?pr'" using own_new pid by simp
    moreover have "\<forall>k<length g'. owner (g' ! k) = wp_id ?pr' \<longrightarrow> int k \<le> lastBlockId ?pr'"
      using len' by simp
    ultimately show ?thesis unfolding user_ok_def using len' by simp
  qed
  let ?procs' = "(procs_w s)[i := ?pr']"
  have P: "wp_id (?procs' ! j) = int j \<and> user_ok g' (?procs' ! j)" if "j < length ?procs'" for j
  proof (cases "j = i")
    case True
    then show ?thesis using un pid i by simp
  next
    case False
    then show ?thesis using uo[of j] ids[of j] that by simp
  qed
  have "\<forall>m\<in>set ms. 0 \<le> receiverId m \<and> nat (receiverId m) < length (procs_w s)"
  proof
    fix m assume "m \<in> set ms"
    then have "receiverId m \<in> set (map receiverId ms)" by simp
    then have "receiverId m \<in> wp_id ` set ?procs'" unfolding emit(3) by auto
    then obtain j where "j < length ?procs'" "receiverId m = wp_id (?procs' ! j)"
      by (auto simp: in_set_conv_nth)
    then show "0 \<le> receiverId m \<and> nat (receiverId m) < length (procs_w s)"
      using P[of j] by auto
  qed
  then have Q: "\<forall>m\<in>set (pq_w s @ ms). 0 \<le> receiverId m \<and> nat (receiverId m) < length ?procs'"
    using qs by auto
  have L: "length ?procs' = nat ?N" using lp by simp
  have P': "\<forall>j<length ?procs'. wp_id (?procs' ! j) = int j \<and> user_ok g' (?procs' ! j)"
    using P by blast
  show ?case unfolding emit(1)
  proof (rule witness_invI)
    show "wgraph_ok (g_numUsers (s\<lparr>g_wnodes := g', g_globalLeaves := leaves, procs_w := ?procs',
              pq_w := pq_w s @ ms, rng_w := rg2\<rparr>))
            (g_wnodes (s\<lparr>g_wnodes := g', g_globalLeaves := leaves, procs_w := ?procs',
              pq_w := pq_w s @ ms, rng_w := rg2\<rparr>))"
      using g' by simp
  qed (use N L P' Q in simp_all)
qed

lemma deliverTop_w_inv:
  assumes inv: "witness_inv s" and top: "pq_top (pq_w s) = Some m"
  shows "witness_inv (deliverTop_w m s)"
proof -
  let ?g = "g_wnodes s"
  note ids = witness_invD(4)[OF inv] and us = witness_invD(5)[OF inv] and qs = witness_invD(6)[OF inv]
  have pop: "pq_pop (pq_w s) = remove1 m (pq_w s)" using top by (simp add: pq_pop_def)
  have qs': "\<forall>m'\<in>set (remove1 m (pq_w s)). 0 \<le> receiverId m' \<and> nat (receiverId m') < length (procs_w s)"
    using qs by (auto dest: notin_set_remove1)
  have rm: "nat (receiverId m) < length (procs_w s)" using qs pq_top_mem[OF top] by auto
  show ?thesis
  proof (cases "nodeId m < 0 \<or> nodeId m \<ge> int (length ?g)")
    case True
    then have "deliverTop_w m s = s\<lparr>pq_w := remove1 m (pq_w s)\<rparr>"
      using pop by (simp add: deliverTop_w_def Let_def)
    moreover have "witness_inv (s\<lparr>pq_w := remove1 m (pq_w s)\<rparr>)"
      by (rule witness_invI) (use witness_invD[OF inv] qs' in simp_all)
    ultimately show ?thesis by simp
  next
    case False
    let ?j = "nat (receiverId m)"
    let ?p' = "processReceiveBlock (procs_w s ! ?j) (nodeId m)"
    have eq: "deliverTop_w m s = s\<lparr>pq_w := remove1 m (pq_w s), procs_w := (procs_w s)[?j := ?p']\<rparr>"
      using pop False by (simp add: deliverTop_w_def Let_def)
    have "user_ok ?g ?p'" using us[OF rm] False
      unfolding user_ok_def processReceiveBlock_def by auto
    moreover have "wp_id ?p' = int ?j" using ids[OF rm] by (simp add: processReceiveBlock_def)
    ultimately have P: "wp_id ((procs_w s)[?j := ?p'] ! k) = int k \<and> user_ok ?g ((procs_w s)[?j := ?p'] ! k)"
      if "k < length (procs_w s)" for k
      using that ids[of k] us[of k] by (cases "k = ?j") auto
    note g = witness_invD(1,2)[OF inv]
    have L: "length ((procs_w s)[?j := ?p']) = nat (g_numUsers s)"
      using witness_invD(3)[OF inv] by simp
    have P': "\<forall>k<length ((procs_w s)[?j := ?p']).
        wp_id ((procs_w s)[?j := ?p'] ! k) = int k \<and> user_ok ?g ((procs_w s)[?j := ?p'] ! k)"
      using P by simp
    have Q': "\<forall>m'\<in>set (remove1 m (pq_w s)). 0 \<le> receiverId m' \<and>
        nat (receiverId m') < length ((procs_w s)[?j := ?p'])" using qs' by simp
    show ?thesis unfolding eq
      by (rule witness_invI) (use g L P' Q' in simp_all)
  qed
qed

lemma initState_w_inv:
  assumes "0 \<le> numUsers cfg"
  shows "witness_inv (initState_w mt cfg)"
proof -
  have "wgraph_ok (numUsers cfg) [genesis_w]" using assms by (simp add: wgraph_ok_def genesis_w_def)
  moreover have "user_ok [genesis_w] (initProcs_w (numUsers cfg) ! i) \<and>
                 wp_id (initProcs_w (numUsers cfg) ! i) = int i"
    if "i < length (initProcs_w (numUsers cfg))" for i
  proof -
    have i: "i < nat (numUsers cfg)" using that by (simp add: initProcs_w_def)
    then have "initProcs_w (numUsers cfg) ! i = \<lparr>wp_id = int i, lastBlockId = - 1, knownBlocks = [0]\<rparr>"
      by (simp add: initProcs_w_def)
    then show ?thesis by (simp add: user_ok_def genesis_w_def)
  qed
  moreover have "length (initProcs_w (numUsers cfg)) = nat (numUsers cfg)"
    by (simp add: initProcs_w_def)
  ultimately show ?thesis using assms unfolding initState_w_def
    by (intro witness_invI) simp_all
qed

lemma witness_reachable_inv: "witness_reachable cfg s \<Longrightarrow> witness_inv s \<and> g_numUsers s = numUsers cfg"
proof (induction rule: witness_reachable.induct)
  case (init_w mt)
  then show ?case using initState_w_inv by (simp add: initState_w_def)
next
  case (deliver_w s m)
  then show ?case using deliverTop_w_inv by (auto simp: deliverTop_w_def Let_def)
next
  case (post_w s i t srt dbl)
  have "g_numUsers (postBlock srt dbl cfg t i s) = g_numUsers s"
    by (rule postBlock_cases[of srt dbl cfg t i s]) auto
  then show ?case using post_w postBlock_inv by auto
next
  case (log_w s t)
  have "witness_inv (s\<lparr>out_w := out_w s @ [witnessRow t s]\<rparr>) \<longleftrightarrow> witness_inv s"
    by (simp add: witness_inv_def)
  then show ?case using log_w by simp
qed

lemma initProcs_w_2: "initProcs_w 2 = [\<lparr>wp_id = 0, lastBlockId = - 1, knownBlocks = [0]\<rparr>,
               \<lparr>wp_id = 1, lastBlockId = - 1, knownBlocks = [0]\<rparr>]"
  by (simp add: initProcs_w_def upt_rec)

lemma replicate_nat_2: "replicate 2 x = [x, x]"
  by (simp add: numeral_2_eq_2)

lemma upt_nat_2: "[0..<2] = [0, 1]"
  by (simp add: upt_rec)

lemma post_wstate1: "postBlock sort_by_ts exact_dbl wcfg0 0 0 (initState_w mt0 wcfg0) = wstate1"
  by (simp add: postBlock_def initState_w_def wcfg0_def wstate1_def initProcs_w_2 draw0
      genesis_w_def blockParents_def selectWitnesses_def candidates_def sort_by_ts_def exact_dbl_def
      replicate_nat_2 upt_nat_2 us_insert_def us_erase_def pq_push_def Let_def)

lemma deliver_wstate2:
  "deliverTop_w \<lparr>deliverTime = 0, receiverId = 1, nodeId = 1\<rparr> wstate1 = wstate2"
  by (simp add: deliverTop_w_def wstate1_def wstate2_def pq_pop_def processReceiveBlock_def
      us_insert_def Let_def)

lemma reachable_wstate2: "witness_reachable wcfg0 wstate2"
proof -
  have "witness_reachable wcfg0 (initState_w mt0 wcfg0)"
    by (rule witness_reachable.init_w) (simp add: wcfg0_def)
  moreover have "0 < length (procs_w (initState_w mt0 wcfg0))"
    by (simp add: initState_w_def wcfg0_def initProcs_w_2)
  ultimately have "witness_reachable wcfg0
      (postBlock sort_by_ts exact_dbl wcfg0 0 0 (initState_w mt0 wcfg0))"
    by (rule witness_reachable.post_w) (simp_all add: sort_by_ts_sorts)
  then have "witness_reachable wcfg0 wstate1" by (simp only: post_wstate1)
  moreover have "pq_top (pq_w wstate1) = Some \<lparr>deliverTime = 0, receiverId = 1, nodeId = 1\<rparr>"
    by (simp add: wstate1_def)
  ultimately have "witness_reachable wcfg0
      (deliverTop_w \<lparr>deliverTime = 0, receiverId = 1, nodeId = 1\<rparr> wstate1)"
    by (rule witness_reachable.deliver_w)
  then show ?thesis by (simp only: deliver_wstate2)
qed

text \<open>
  C2. In both modes and in every state of a run, every node of the graph sits at the
  position of its id, each of its parent ids is strictly less than its id, and the genesis
  node, id \<open>0\<close>, has no parents. No node is ever removed, so this covers every node
  ever created.
\<close>

theorem parents_precede:
  "(tangle_reachable cfg k s \<and> i < length (g_nodes s) \<longrightarrow>
      tx_id (g_nodes s ! i) = int i \<and>
      (\<forall>p\<in>set (parents (g_nodes s ! i)). p < tx_id (g_nodes s ! i)) \<and>
      tx_id (g_nodes s ! 0) = 0 \<and> parents (g_nodes s ! 0) = []) \<and>
   (witness_reachable wcfg ws \<and> j < length (g_wnodes ws) \<longrightarrow>
      w_id (g_wnodes ws ! j) = int j \<and>
      (\<forall>p\<in>set (w_parents (g_wnodes ws ! j)). p < w_id (g_wnodes ws ! j)) \<and>
      w_id (g_wnodes ws ! 0) = 0 \<and> w_parents (g_wnodes ws ! 0) = [])"
proof (intro conjI impI)
  assume a: "tangle_reachable cfg k s \<and> i < length (g_nodes s)"
  then have g: "graph_ok (g_nodes s)" using tangle_reachable_inv by (auto simp: tangle_inv_def)
  then have z: "0 < length (g_nodes s)" by (simp add: graph_ok_def)
  show "tx_id (g_nodes s ! i) = int i" using g a unfolding graph_ok_def by blast
  then show "\<forall>p\<in>set (parents (g_nodes s ! i)). p < tx_id (g_nodes s ! i)"
    using graph_ok_parent(2)[OF g] a by auto
  show "tx_id (g_nodes s ! 0) = 0" using g z unfolding graph_ok_def by fastforce
  have "\<forall>p\<in>set (parents (g_nodes s ! 0)). 0 \<le> p \<and> p < 0"
    using graph_ok_parent[OF g z] by auto
  then show "parents (g_nodes s ! 0) = []" by (cases "parents (g_nodes s ! 0)") auto
next
  assume a: "witness_reachable wcfg ws \<and> j < length (g_wnodes ws)"
  then have "witness_inv ws" using witness_reachable_inv by blast
  then have g: "wgraph_ok (g_numUsers ws) (g_wnodes ws)" by (rule witness_invD(1))
  then have z: "0 < length (g_wnodes ws)" by (simp add: wgraph_ok_def)
  have all: "\<And>n. n < length (g_wnodes ws) \<Longrightarrow> w_id (g_wnodes ws ! n) = int n \<and>
        (\<forall>p\<in>set (w_parents (g_wnodes ws ! n)). 0 \<le> p \<and> p < int n)"
    using g unfolding wgraph_ok_def by blast
  show "w_id (g_wnodes ws ! j) = int j" using all a by blast
  show "\<forall>p\<in>set (w_parents (g_wnodes ws ! j)). p < w_id (g_wnodes ws ! j)"
    using all[of j] a by auto
  show "w_id (g_wnodes ws ! 0) = 0" using all[OF z] by simp
  have "\<forall>p\<in>set (w_parents (g_wnodes ws ! 0)). 0 \<le> p \<and> p < 0" using all[OF z] by simp
  then show "w_parents (g_wnodes ws ! 0) = []" by (cases "w_parents (g_wnodes ws ! 0)") auto
qed

theorem parents_precede_witness:
  "tangle_reachable cfg0 1 state1 \<and> 1 < length (g_nodes state1) \<and>
   tx_id (g_nodes state1 ! 1) = 1 \<and> parents (g_nodes state1 ! 1) = [0, 0] \<and>
   parents (g_nodes state1 ! 0) = [] \<and>
   witness_reachable wcfg0 wstate2 \<and> 1 < length (g_wnodes wstate2) \<and>
   w_id (g_wnodes wstate2 ! 1) = 1 \<and> w_parents (g_wnodes wstate2 ! 1) = [0] \<and>
   w_parents (g_wnodes wstate2 ! 0) = []"
  using parents_precede[of cfg0 1 state1 1 wcfg0 wstate2 1] reachable_state1 reachable_wstate2
  by (simp add: state1_def wstate2_def wstate1_def)













section \<open>The runs of both modes\<close>

declare deliverMessages.simps [simp del]


lemma pq_top_min: "pq_top ms = Some m \<Longrightarrow> \<forall>m'\<in>set ms. deliverTime m \<le> deliverTime m'"
proof (induction ms arbitrary: m)
  case Nil
  then show ?case by simp
next
  case (Cons a ms)
  show ?case
  proof (cases "pq_top ms")
    case None
    then have "ms = []" by (cases ms) (auto split: option.splits if_splits)
    then show ?thesis using Cons.prems by simp
  next
    case (Some b)
    have b: "\<forall>x\<in>set ms. deliverTime b \<le> deliverTime x" using Cons.IH[OF Some] .
    show ?thesis
    proof (cases "deliverTime b < deliverTime a")
      case True
      then have "m = b" using Cons.prems(1) Some by simp
      then show ?thesis using b True by auto
    next
      case False
      then have "m = a" using Cons.prems(1) Some by simp
      then show ?thesis using b False by fastforce
    qed
  qed
qed

lemma pq_top_None: "pq_top ms = None \<longleftrightarrow> ms = []"
  by (cases ms) (auto split: option.splits if_splits)

lemma filter_remove1_due:
  assumes "\<not> P m"
  shows "filter P (remove1 m ms) = filter P ms"
  using assms by (induction ms) auto

lemma deliverMessages_props:
  assumes "tangle_inv s"
  shows "tangle_inv (deliverMessages t s) \<and>
         length (procs (deliverMessages t s)) = length (procs s) \<and>
         out (deliverMessages t s) = out s \<and>
         g_messagesSent (deliverMessages t s) = g_messagesSent s \<and>
         g_nodes (deliverMessages t s) = g_nodes s \<and>
         rng (deliverMessages t s) = rng s \<and>
         pq (deliverMessages t s) = filter (\<lambda>m. t < deliverTime m) (pq s)"
  using assms
proof (induction t s rule: deliverMessages.induct)
  case (1 t s)
  show ?case
  proof (cases "pq_top (pq s)")
    case None
    then have "pq s = []" by (simp add: pq_top_None)
    then show ?thesis using None 1(2) by (simp add: deliverMessages.simps)
  next
    case (Some m)
    show ?thesis
    proof (cases "deliverTime m \<le> t")
      case True
      note d = deliverTop_inv[OF 1(2) Some]
      have eq: "deliverMessages t s = deliverMessages t (deliverTop m s)"
        using Some True by (simp add: deliverMessages.simps)
      have r: "rng (deliverTop m s) = rng s" by (simp add: deliverTop_def Let_def)
      have "filter (\<lambda>m. t < deliverTime m) (remove1 m (pq s)) = filter (\<lambda>m. t < deliverTime m) (pq s)"
        using True by (intro filter_remove1_due) simp
      then show ?thesis using 1(1)[OF Some True d(1)] d(2-6) r unfolding eq by simp
    next
      case False
      have "t < deliverTime m'" if "m' \<in> set (pq s)" for m'
        using pq_top_min[OF Some] that False by fastforce
      then have "filter (\<lambda>m. t < deliverTime m) (pq s) = pq s" by (simp add: filter_id_conv)
      then show ?thesis using Some False 1(2) by (simp add: deliverMessages.simps)
    qed
  qed
qed

lemma deliverMessages_reachable:
  "tangle_reachable cfg k s \<Longrightarrow> tangle_reachable cfg k (deliverMessages t s)"
proof (induction t s rule: deliverMessages.induct)
  case (1 t s)
  show ?case
  proof (cases "pq_top (pq s)")
    case None
    then show ?thesis using 1(2) by (simp add: deliverMessages.simps)
  next
    case (Some m)
    show ?thesis
    proof (cases "deliverTime m \<le> t")
      case True
      have "tangle_reachable cfg k (deliverTop m s)" using 1(2) Some by (rule tangle_reachable.deliver)
      from 1(1)[OF Some True this] show ?thesis using Some True by (simp add: deliverMessages.simps)
    next
      case False
      then show ?thesis using Some 1(2) by (simp add: deliverMessages.simps)
    qed
  qed
qed

lemma createTransactions_props:
  "tangle_inv s \<Longrightarrow> \<forall>i\<in>set idxs. i < length (procs s) \<Longrightarrow>
   \<exists>s'. createTransactions dbl cfg t idxs s = Some s' \<and> tangle_inv s' \<and>
        length (procs s') = length (procs s) \<and> out s' = out s"
proof (induction idxs arbitrary: s)
  case Nil
  then show ?case by simp
next
  case (Cons i idxs)
  from createTransaction_inv[OF Cons.prems(1), of i dbl cfg t] Cons.prems(2)
  obtain s1 where s1: "createTransaction dbl cfg t i s = Some s1" "tangle_inv s1"
    "length (procs s1) = length (procs s)" "out s1 = out s" by auto
  have "\<forall>j\<in>set idxs. j < length (procs s1)" using Cons.prems(2) s1(3) by simp
  from Cons.IH[OF s1(2) this] s1 show ?case by auto
qed

lemma createTransactions_reachable:
  "tangle_reachable cfg k s \<Longrightarrow> \<forall>i\<in>set idxs. i < length (procs s) \<Longrightarrow>
   createTransactions dbl cfg t idxs s = Some s' \<Longrightarrow> \<exists>k'. tangle_reachable cfg k' s'"
proof (induction idxs arbitrary: s k)
  case Nil
  then show ?case by auto
next
  case (Cons i idxs)
  have inv: "tangle_inv s" using tangle_reachable_inv[OF Cons.prems(1)] by simp
  from createTransaction_inv[OF inv, of i dbl cfg t] Cons.prems(2)
  obtain s1 where s1: "createTransaction dbl cfg t i s = Some s1"
    "length (procs s1) = length (procs s)" by auto
  have i: "i < length (procs s)" using Cons.prems(2) by simp
  have r: "tangle_reachable cfg (k + (length (pq s1) - length (pq s))) s1"
    using Cons.prems(1) i s1(1) by (rule tangle_reachable.create)
  have "\<forall>j\<in>set idxs. j < length (procs s1)" using Cons.prems(2) s1(2) by simp
  moreover have "createTransactions dbl cfg t idxs s1 = Some s'" using Cons.prems(3) s1(1) by simp
  ultimately show ?case using Cons.IH[OF r] by blast
qed

lemma simStep_props:
  assumes "tangle_inv s"
  shows "\<exists>s' row. simStep rv dbl cfg t s = Some s' \<and> tangle_inv s' \<and>
           out s' = out s @ [row] \<and> time row = t"
proof -
  let ?s1 = "deliverMessages t s"
  have i1: "tangle_inv ?s1" using deliverMessages_props[OF assms] by simp
  have o1: "out ?s1 = out s" using deliverMessages_props[OF assms] by simp
  from createTransactions_props[OF i1, of "[0..<length (procs ?s1)]" dbl cfg t]
  obtain s2 where s2: "createTransactions dbl cfg t [0..<length (procs ?s1)] ?s1 = Some s2"
    "tangle_inv s2" "out s2 = out ?s1" by auto
  have "tangle_inv (s2\<lparr>out := out s2 @ [metricsRow rv dbl cfg t s2]\<rparr>) \<longleftrightarrow> tangle_inv s2"
    by (simp add: tangle_inv_def)
  moreover have "time (metricsRow rv dbl cfg t s2) = t"
    by (simp add: metricsRow_def Let_def split: prod.splits)
  ultimately show ?thesis using s2 o1 by (simp add: simStep_def Let_def)
qed

lemma simStep_reachable:
  assumes "tangle_reachable cfg k s" "simStep rv dbl cfg t s = Some s'"
  shows "\<exists>k'. tangle_reachable cfg k' s'"
proof -
  let ?s1 = "deliverMessages t s"
  have r1: "tangle_reachable cfg k ?s1" using assms(1) by (rule deliverMessages_reachable)
  obtain s2 where s2: "createTransactions dbl cfg t [0..<length (procs ?s1)] ?s1 = Some s2"
    "s' = s2\<lparr>out := out s2 @ [metricsRow rv dbl cfg t s2]\<rparr>"
    using assms(2) by (auto simp: simStep_def Let_def split: option.splits)
  from createTransactions_reachable[OF r1 _ s2(1)] obtain k' where "tangle_reachable cfg k' s2"
    by auto
  then have "tangle_reachable cfg k' s'" unfolding s2(2) by (rule tangle_reachable.log)
  then show ?thesis by blast
qed




lemma uniform_double_01_nonneg: "0 \<le> fst (uniform_double 0 1 rg)"
  by (simp add: uniform_double_def next_raw_def canonical_def)

lemma createTransaction_idle:
  assumes "txProb cfg \<le> 0"
  shows "createTransaction dbl cfg t i s = Some (s\<lparr>rng := snd (uniform_double 0 1 (rng s))\<rparr>)"
proof -
  obtain r rg1 where u: "uniform_double 0 1 (rng s) = (r, rg1)"
    by (cases "uniform_double 0 1 (rng s)")
  have "0 \<le> r" using uniform_double_01_nonneg[of "rng s"] u by simp
  then have "\<not> r < txProb cfg" using assms by simp
  then show ?thesis using u by (simp add: createTransaction_def)
qed

lemma createTransactions_idle:
  assumes "txProb cfg \<le> 0"
  shows "\<exists>rg. createTransactions dbl cfg t idxs s = Some (s\<lparr>rng := rg\<rparr>)"
proof (induction idxs arbitrary: s)
  case Nil
  have "s = s\<lparr>rng := rng s\<rparr>" by simp
  then show ?case by (metis createTransactions.simps(1))
next
  case (Cons i idxs)
  let ?s1 = "s\<lparr>rng := snd (uniform_double 0 1 (rng s))\<rparr>"
  from Cons[of ?s1] obtain rg where "createTransactions dbl cfg t idxs ?s1 = Some (?s1\<lparr>rng := rg\<rparr>)"
    by blast
  then have "createTransactions dbl cfg t (i # idxs) s = Some (s\<lparr>rng := rg\<rparr>)"
    using createTransaction_idle[OF assms, of dbl t i s] by simp
  then show ?case by blast
qed

lemma metricsRow_rng [simp]: "metricsRow rv dbl cfg t (s\<lparr>rng := rg\<rparr>) = metricsRow rv dbl cfg t s"
  by (cases rv) (simp_all add: metricsRow_def Let_def split: prod.splits)

lemma metricsRow_out [simp]: "metricsRow rv dbl cfg t (s\<lparr>out := rows\<rparr>) = metricsRow rv dbl cfg t s"
  by (cases rv) (simp_all add: metricsRow_def Let_def split: prod.splits)

lemma simStep_idle:
  assumes "txProb cfg \<le> 0" "pq s = []"
  shows "\<exists>rg. simStep rv dbl cfg t s =
           Some (s\<lparr>rng := rg, out := out s @ [metricsRow rv dbl cfg t s]\<rparr>)"
proof -
  have d: "deliverMessages t s = s" using assms(2) by (simp add: deliverMessages.simps)
  from createTransactions_idle[OF assms(1), of dbl t "[0..<length (procs s)]" s]
  obtain rg where "createTransactions dbl cfg t [0..<length (procs s)] s = Some (s\<lparr>rng := rg\<rparr>)"
    by blast
  then have "simStep rv dbl cfg t s = Some (s\<lparr>rng := rg, out := out s @ [metricsRow rv dbl cfg t s]\<rparr>)"
    by (simp add: simStep_def d)
  then show ?thesis by blast
qed

lemma simLoop_idle:
  assumes ce: "clock_exact dbl (simDuration cfg)" and p: "txProb cfg \<le> 0"
  shows "pq s = [] \<Longrightarrow>
         \<exists>rg. simLoop rv dbl cfg (real n) s =
           Some (s\<lparr>rng := rg, out := out s @ map (\<lambda>j. metricsRow rv dbl cfg (real j) s)
                                               [n..<nat (\<lfloor>simDuration cfg\<rfloor> + 1)]\<rparr>)"
proof (induction "nat (\<lfloor>simDuration cfg\<rfloor> + 1) - n" arbitrary: n s)
  case 0
  then have "\<not> real n \<le> simDuration cfg" by linarith
  moreover have "[n..<nat (\<lfloor>simDuration cfg\<rfloor> + 1)] = []" using 0 by simp
  moreover have "s = s\<lparr>rng := rng s, out := out s\<rparr>" by simp
  ultimately have "simLoop rv dbl cfg (real n) s =
      Some (s\<lparr>rng := rng s, out := out s @ map (\<lambda>j. metricsRow rv dbl cfg (real j) s)
                                               [n..<nat (\<lfloor>simDuration cfg\<rfloor> + 1)]\<rparr>)"
    by (subst simLoop.simps) simp
  then show ?case by blast
next
  case (Suc d)
  then have lt: "n < nat (\<lfloor>simDuration cfg\<rfloor> + 1)" by simp
  then have le: "real n \<le> simDuration cfg" by linarith
  from simStep_idle[OF p Suc(3), of rv dbl "real n"] obtain rg1 where
    st: "simStep rv dbl cfg (real n) s =
           Some (s\<lparr>rng := rg1, out := out s @ [metricsRow rv dbl cfg (real n) s]\<rparr>)"
    by blast
  let ?s1 = "s\<lparr>rng := rg1, out := out s @ [metricsRow rv dbl cfg (real n) s]\<rparr>"
  have d: "d = nat (\<lfloor>simDuration cfg\<rfloor> + 1) - Suc n" using Suc(2) by simp
  have q: "pq ?s1 = []" using Suc(3) by simp
  have next_t: "dadd dbl (real n) 1 = real (Suc n)"
    using ce le unfolding clock_exact_def by simp
  from Suc(1)[OF d q] obtain rg where
    "simLoop rv dbl cfg (real (Suc n)) ?s1 =
       Some (?s1\<lparr>rng := rg, out := out ?s1 @ map (\<lambda>j. metricsRow rv dbl cfg (real j) ?s1)
                                               [Suc n..<nat (\<lfloor>simDuration cfg\<rfloor> + 1)]\<rparr>)"
    by blast
  then have "simLoop rv dbl cfg (real n) s =
       Some (s\<lparr>rng := rg, out := out s @ map (\<lambda>j. metricsRow rv dbl cfg (real j) s)
                                               [n..<nat (\<lfloor>simDuration cfg\<rfloor> + 1)]\<rparr>)"
    using le st next_t lt by (subst simLoop.simps) (simp add: upt_conv_Cons)
  then show ?case by blast
qed

lemma upt_nat_3': "[0..<3] = [0, 1, 2]"
  by (simp add: upt_rec)

lemma idle_run:
  assumes "numProcesses cfg = 1" "txProb cfg = 0" "simDuration cfg = 2"
    "openable (outputPath cfg)" "clock_exact dbl 2" "ddiv dbl 1 1 = 1"
  shows "runTangleSimulation rv mt openable dbl cfg =
           Some (Inr (tangle_header rv, [idle_row rv 0, idle_row rv 1, idle_row rv 2]))"
proof -
  let ?s0 = "initState mt cfg"
  have ce: "clock_exact dbl (simDuration cfg)" using assms(3,5) by simp
  have p: "txProb cfg \<le> 0" using assms(2) by simp
  have q: "pq ?s0 = []" by (simp add: initState_def)
  from simLoop_idle[OF ce p q, of rv 0] obtain rg where
    l: "simLoop rv dbl cfg 0 ?s0 =
       Some (?s0\<lparr>rng := rg, out := out ?s0 @ map (\<lambda>j. metricsRow rv dbl cfg (real j) ?s0)
                                               [0..<nat (\<lfloor>simDuration cfg\<rfloor> + 1)]\<rparr>)"
    by auto
  have n: "nat (\<lfloor>simDuration cfg\<rfloor> + 1) = 3" using assms(3) by simp
  have row: "metricsRow rv dbl cfg t ?s0 = idle_row rv t" for t
    using assms(1,6)
    by (cases rv) (simp_all add: metricsRow_def initState_def initProcs_def idle_row_def genesis_def)
  have o: "out ?s0 = []" by (simp add: initState_def)
  have "out (the (simLoop rv dbl cfg 0 ?s0)) =
      map (\<lambda>j. metricsRow rv dbl cfg (real j) ?s0) [0, 1, 2]"
    using l o unfolding n upt_nat_3' by simp
  then show ?thesis
    using assms(1,4) l unfolding row
    by (simp add: runTangleSimulation_def)
qed

lemma clock_exact_exact_dbl: "clock_exact exact_dbl D"
  by (simp add: clock_exact_def exact_dbl_def)

lemma cfg1_facts:
  "numProcesses cfg1 = 1" "txProb cfg1 = 0" "simDuration cfg1 = 2" "ddiv exact_dbl 1 1 = 1"
  by (simp_all add: cfg1_def cfg0_def txProb_def exact_dbl_def)

text \<open>
  C7. A mode A run with one process, emission probability \<open>0\<close> and duration \<open>2\<close>
  returns, for every generator and seed, and its output holds the header and exactly
  three rows, for the times \<open>0\<close>, \<open>1\<close> and \<open>2\<close>, each with \<open>global_tips = 1\<close>,
  \<open>total_nodes = 1\<close>, \<open>tip_ratio = 1.0\<close> and \<open>messages_sent = 0\<close> (and one local tip).
  The lines cited are the second revision, the one with these columns. The platform's
  doubles enter with \<open>0 + 1 = 1\<close>, \<open>1 + 1 = 2\<close>, \<open>2 + 1 = 3\<close> and \<open>1 / 1 = 1\<close>, which
  every double arithmetic gives.
\<close>

theorem no_activity_run:
  assumes "numProcesses cfg = 1" "txProb cfg = 0" "simDuration cfg = 2"
    "openable (outputPath cfg)" "clock_exact dbl 2" "ddiv dbl 1 1 = 1"
  shows "runTangleSimulation Rev2 mt openable dbl cfg =
           Some (Inr (''time,global_tips,avg_local_tips,min_local_tips,max_local_tips,total_nodes,tip_ratio,messages_sent'',
             [\<lparr>time = 0, global_tips = 1, avg_local_tips = Some 1, min_local_tips = 1,
               max_local_tips = 1, total_nodes = 1, tip_ratio = Some 1, messages_sent = Some 0\<rparr>,
              \<lparr>time = 1, global_tips = 1, avg_local_tips = Some 1, min_local_tips = 1,
               max_local_tips = 1, total_nodes = 1, tip_ratio = Some 1, messages_sent = Some 0\<rparr>,
              \<lparr>time = 2, global_tips = 1, avg_local_tips = Some 1, min_local_tips = 1,
               max_local_tips = 1, total_nodes = 1, tip_ratio = Some 1, messages_sent = Some 0\<rparr>]))"
  using idle_run[of cfg openable dbl Rev2 mt] assms by (simp add: idle_row_def tangle_header_def)

theorem no_activity_run_witness:
  "numProcesses cfg1 = 1 \<and> txProb cfg1 = 0 \<and> simDuration cfg1 = 2 \<and>
   clock_exact exact_dbl 2 \<and> ddiv exact_dbl 1 1 = 1 \<and>
   runTangleSimulation Rev2 (\<lambda>sd i. sd + i) (\<lambda>path. True) exact_dbl (cfg1\<lparr>seed := 7\<rparr>) =
     Some (Inr (''time,global_tips,avg_local_tips,min_local_tips,max_local_tips,total_nodes,tip_ratio,messages_sent'',
       [\<lparr>time = 0, global_tips = 1, avg_local_tips = Some 1, min_local_tips = 1,
         max_local_tips = 1, total_nodes = 1, tip_ratio = Some 1, messages_sent = Some 0\<rparr>,
        \<lparr>time = 1, global_tips = 1, avg_local_tips = Some 1, min_local_tips = 1,
         max_local_tips = 1, total_nodes = 1, tip_ratio = Some 1, messages_sent = Some 0\<rparr>,
        \<lparr>time = 2, global_tips = 1, avg_local_tips = Some 1, min_local_tips = 1,
         max_local_tips = 1, total_nodes = 1, tip_ratio = Some 1, messages_sent = Some 0\<rparr>]))"
  using no_activity_run[of "cfg1\<lparr>seed := 7\<rparr>" "\<lambda>path. True" exact_dbl "\<lambda>sd i. sd + i"]
    cfg1_facts clock_exact_exact_dbl[of 2]
  by (simp add: txProb_def)


















end
